theory Spec2Isabelle
  imports Complex_Main "HOL-Library.Word"
begin

section \<open>AES-128 FPGA accelerator benchmark\<close>

text \<open>
  A shallow embedding of \<^verbatim>\<open>src/aes-eval/eval_aes.py\<close>: the class \<^verbatim>\<open>AESBenchmark\<close>
  (framing, one round trip, the probe, port discovery) and the statistics of the
  measurement functions. Python \<^verbatim>\<open>bytes\<close> are lists of 8-bit words, Python integers
  are \<open>int\<close>, Python floats are \<open>real\<close> (exact: rounding of floats is not modelled),
  a raised exception is the \<open>Inl\<close> branch of a sum, and the mutation of an object is
  the updated object returned next to the result.
\<close>

subsection \<open>Bytes and exceptions\<close>

type_synonym byte = "8 word"
type_synonym bytes = "byte list"

datatype py_error =
    ValueError string
  | SerialException
  | StructError
  | ZeroDivisionError
  | IndexError
  | TypeError

subsection \<open>The serial transport\<close>

text \<open>
  The pyserial object \<^verbatim>\<open>serial.Serial\<close> is not code of the repository; it is modelled
  as far as the program uses it. A port has an input buffer, an open flag and an
  attached device. The device is a parameter: given the frames written to the port so
  far (the newest last) it answers \<open>Some bs\<close>, the bytes that reach the input buffer
  before the read timeout expires (none, a part of a frame, a frame, or more), or
  \<open>None\<close>, a link failure that makes the next \<^verbatim>\<open>read\<close> raise
  \<^verbatim>\<open>SerialException\<close>; a link that has failed stays failed, and no other call on
  a port raises. Every call on the port is appended to the log \<open>ops\<close>, which
  is how a theorem counts the writes and reads of a round trip. The method
  \<^verbatim>\<open>write\<close> is named \<open>write_frame\<close>, since \<open>write\<close> is a keyword of Isabelle.
\<close>

datatype serial_op = ResetInputBuffer | Write bytes | Flush | Read nat | Close

type_synonym device = "bytes list \<Rightarrow> bytes option"

record serial =
  is_open :: bool
  in_buffer :: bytes
  rx_fault :: bool
  attached :: device
  ops :: "serial_op list"

fun frames :: "serial_op list \<Rightarrow> bytes list" where
  "frames [] = []"
| "frames (Write f # os) = f # frames os"
| "frames (_ # os) = frames os"

definition reset_input_buffer :: "serial \<Rightarrow> serial" where
  "reset_input_buffer s = s\<lparr>in_buffer := [], ops := ops s @ [ResetInputBuffer]\<rparr>"

definition write_frame :: "serial \<Rightarrow> bytes \<Rightarrow> serial" where
  "write_frame s data =
     (case attached s (frames (ops s) @ [data]) of
        Some bs \<Rightarrow> s\<lparr>in_buffer := in_buffer s @ bs, ops := ops s @ [Write data]\<rparr>
      | None \<Rightarrow> s\<lparr>rx_fault := True, ops := ops s @ [Write data]\<rparr>)"

definition flush :: "serial \<Rightarrow> serial" where
  "flush s = s\<lparr>ops := ops s @ [Flush]\<rparr>"

definition read :: "serial \<Rightarrow> nat \<Rightarrow> (py_error + bytes) \<times> serial" where
  "read s n =
     (if rx_fault s then (Inl SerialException, s\<lparr>ops := ops s @ [Read n]\<rparr>)
      else (Inr (take n (in_buffer s)),
            s\<lparr>in_buffer := drop n (in_buffer s), ops := ops s @ [Read n]\<rparr>))"

definition close :: "serial \<Rightarrow> serial" where
  "close s = s\<lparr>is_open := False, ops := ops s @ [Close]\<rparr>"

text \<open>
  \<^verbatim>\<open>struct.unpack('<I', buf)[0]\<close>: the buffer must hold exactly four bytes, read with
  the least significant byte first.
\<close>

definition struct_unpack_I :: "bytes \<Rightarrow> py_error + int" where
  "struct_unpack_I buf =
     (if length buf \<noteq> 4 then Inl StructError
      else Inr (foldr (\<lambda>b acc. uint b + 256 * acc) buf 0))"

subsection \<open>Class AESBenchmark\<close>

definition FRAME_MARKER :: bytes where
  "FRAME_MARKER = [0xFF, 0xFF]"

definition KEY_SIZE :: nat where
  "KEY_SIZE = 16"

definition BLOCK_SIZE :: nat where
  "BLOCK_SIZE = 16"

definition TX_FRAME_SIZE :: nat where
  "TX_FRAME_SIZE = KEY_SIZE + BLOCK_SIZE + 2"

definition RX_FRAME_SIZE :: nat where
  "RX_FRAME_SIZE = BLOCK_SIZE + 4"

definition NIST_KEY :: bytes where
  "NIST_KEY = [0x2b, 0x7e, 0x15, 0x16, 0x28, 0xae, 0xd2, 0xa6,
               0xab, 0xf7, 0x15, 0x88, 0x09, 0xcf, 0x4f, 0x3c]"

definition NIST_PT :: bytes where
  "NIST_PT = [0x32, 0x43, 0xf6, 0xa8, 0x88, 0x5a, 0x30, 0x8d,
              0x31, 0x31, 0x98, 0xa2, 0xe0, 0x37, 0x07, 0x34]"

definition NIST_CT :: bytes where
  "NIST_CT = [0x39, 0x25, 0x84, 0x1d, 0x02, 0xdc, 0x09, 0xfb,
              0xdc, 0x11, 0x85, 0x97, 0x19, 0x6a, 0x0b, 0x32]"

record AESBenchmark =
  port :: string
  baudrate :: int
  timeout :: real
  ser :: "serial option"

text \<open>
  \<^verbatim>\<open>encrypt_block\<close> (lines 117-156). The result is the pair the Python returns, or the
  exception it raises; the second component is the object after the call.
\<close>

definition encrypt_block ::
  "AESBenchmark \<Rightarrow> bytes \<Rightarrow> bytes \<Rightarrow> (py_error + bytes option \<times> int option) \<times> AESBenchmark"
where
  "encrypt_block self key plaintext =
     (case ser self of
        None \<Rightarrow> (Inr (None, None), self)
      | Some s \<Rightarrow>
          if \<not> is_open s then (Inr (None, None), self)
          else if length key \<noteq> KEY_SIZE then (Inl (ValueError ''Key must be 16 bytes''), self)
          else if length plaintext \<noteq> BLOCK_SIZE then
            (Inl (ValueError ''Plaintext must be 16 bytes''), self)
          else
            let tx_frame = key @ plaintext @ FRAME_MARKER;
                s1 = reset_input_buffer s;
                s2 = write_frame s1 tx_frame;
                s3 = flush s2;
                (r, s4) = read s3 RX_FRAME_SIZE;
                self' = self\<lparr>ser := Some s4\<rparr>
            in (case r of
                  Inl e \<Rightarrow> (Inl e, self')
                | Inr rx_data \<Rightarrow>
                    if length rx_data \<noteq> RX_FRAME_SIZE then (Inr (None, None), self')
                    else
                      let ciphertext = take BLOCK_SIZE rx_data
                      in (case struct_unpack_I (drop BLOCK_SIZE rx_data) of
                            Inl e \<Rightarrow> (Inl e, self')
                          | Inr cycle_count \<Rightarrow>
                              (Inr (Some ciphertext, Some cycle_count), self'))))"

text \<open>
  The machine the script runs on: the ports \<^verbatim>\<open>comports()\<close> lists (device and
  description), and what \<^verbatim>\<open>serial.Serial(port, baudrate, ..., timeout)\<close> finds on a
  port: \<open>None\<close> when the port cannot be opened (the constructor raises
  \<^verbatim>\<open>SerialException\<close>), or the bytes already waiting in the input buffer and the
  attached device.
\<close>

record host =
  comports :: "(string \<times> string) list"
  plugged :: "string \<Rightarrow> int \<Rightarrow> real \<Rightarrow> (bytes \<times> device) option"

definition Serial :: "host \<Rightarrow> string \<Rightarrow> int \<Rightarrow> real \<Rightarrow> serial option" where
  "Serial h p b t =
     (case plugged h p b t of
        None \<Rightarrow> None
      | Some (noise, d) \<Rightarrow>
          Some \<lparr>is_open = True, in_buffer = noise, rx_fault = False, attached = d, ops = []\<rparr>)"

definition list_serial_ports :: "host \<Rightarrow> (string \<times> string) list" where
  "list_serial_ports h = comports h"

definition init :: "string \<Rightarrow> int \<Rightarrow> real \<Rightarrow> AESBenchmark" where
  "init p b t = \<lparr>port = p, baudrate = b, timeout = t, ser = None\<rparr>"

definition connect :: "host \<Rightarrow> AESBenchmark \<Rightarrow> bool \<times> AESBenchmark" where
  "connect h self =
     (case Serial h (port self) (baudrate self) (timeout self) of
        None \<Rightarrow> (False, self)
      | Some s \<Rightarrow> (True, self\<lparr>ser := Some (reset_input_buffer s)\<rparr>))"

definition disconnect :: "AESBenchmark \<Rightarrow> AESBenchmark" where
  "disconnect self =
     (case ser self of
        None \<Rightarrow> self
      | Some s \<Rightarrow> if is_open s then self\<lparr>ser := Some (close s)\<rparr> else self)"

definition validate_with_nist :: "AESBenchmark \<Rightarrow> (py_error + bool) \<times> AESBenchmark" where
  "validate_with_nist self =
     (let (r, self') = encrypt_block self NIST_KEY NIST_PT
      in case r of
           Inl e \<Rightarrow> (Inl e, self')
         | Inr (ciphertext, _) \<Rightarrow>
             (case ciphertext of
                None \<Rightarrow> (Inr False, self')
              | Some ct \<Rightarrow> (Inr (ct = NIST_CT), self')))"

text \<open>
  \<^verbatim>\<open>auto_detect\<close> (lines 172-214), without its printing. The loop returns the object
  it found, and next to it every other object it created, as the loop left it: Python
  drops these objects, and the list is what lets a theorem say that their ports are
  closed.
\<close>

fun auto_detect_loop ::
  "host \<Rightarrow> int \<Rightarrow> real \<Rightarrow> (string \<times> string) list \<Rightarrow> AESBenchmark option \<times> AESBenchmark list"
where
  "auto_detect_loop h baud tmo [] = (None, [])"
| "auto_detect_loop h baud tmo ((dev, description) # rest) =
     (let (ok, bench) = connect h (init dev baud tmo)
      in if \<not> ok then
           (let (found, dropped) = auto_detect_loop h baud tmo rest in (found, bench # dropped))
         else
           (case validate_with_nist bench of
              (Inr True, bench') \<Rightarrow> (Some bench', [])
            | (Inr False, bench') \<Rightarrow>
                (let (found, dropped) = auto_detect_loop h baud tmo rest
                 in (found, disconnect bench' # dropped))
            | (Inl e, bench') \<Rightarrow>
                (let (found, dropped) = auto_detect_loop h baud tmo rest
                 in (found, disconnect bench' # dropped))))"

definition auto_detect :: "host \<Rightarrow> int \<Rightarrow> real \<Rightarrow> AESBenchmark option \<times> AESBenchmark list" where
  "auto_detect h baud tmo =
     (let ports = list_serial_ports h
      in if ports = [] then (None, []) else auto_detect_loop h baud tmo ports)"

subsection \<open>Python built-ins of the measurement functions\<close>

text \<open>
  \<open>and_then\<close> runs the next step on a value and passes an exception on, as the
  sequence of the statements of a Python function does.
\<close>

definition and_then :: "py_error + 'a \<Rightarrow> ('a \<Rightarrow> py_error + 'b) \<Rightarrow> py_error + 'b" where
  "and_then r f = (case r of Inl e \<Rightarrow> Inl e | Inr x \<Rightarrow> f x)"

definition py_min :: "'a::linorder list \<Rightarrow> py_error + 'a" where
  "py_min xs =
     (case xs of
        [] \<Rightarrow> Inl (ValueError ''min() arg is an empty sequence'')
      | x # rest \<Rightarrow> Inr (fold min rest x))"

definition py_max :: "'a::linorder list \<Rightarrow> py_error + 'a" where
  "py_max xs =
     (case xs of
        [] \<Rightarrow> Inl (ValueError ''max() arg is an empty sequence'')
      | x # rest \<Rightarrow> Inr (fold max rest x))"

definition py_div :: "real \<Rightarrow> real \<Rightarrow> py_error + real" where
  "py_div a b = (if b = 0 then Inl ZeroDivisionError else Inr (a / b))"

text \<open>\<^verbatim>\<open>xs[i]\<close>: an index below zero counts from the end, one out of range raises.\<close>

definition py_index :: "'a list \<Rightarrow> int \<Rightarrow> py_error + 'a" where
  "py_index xs i =
     (if 0 \<le> i \<and> i < int (length xs) then Inr (xs ! nat i)
      else if i < 0 \<and> - int (length xs) \<le> i then Inr (xs ! nat (int (length xs) + i))
      else Inl IndexError)"

text \<open>\<^verbatim>\<open>int(x)\<close> on a float: the fraction is cut off, towards zero.\<close>

definition py_int :: "real \<Rightarrow> int" where
  "py_int x = (if x < 0 then \<lceil>x\<rceil> else \<lfloor>x\<rfloor>)"

text \<open>\<^verbatim>\<open>xs[a:b]\<close> for indices \<open>0 \<le> a\<close> and \<open>0 \<le> b\<close>.\<close>

definition py_slice :: "'a list \<Rightarrow> nat \<Rightarrow> nat \<Rightarrow> 'a list" where
  "py_slice xs a b = take (b - a) (drop a xs)"

subsection \<open>The software reference (pycryptodome)\<close>

text \<open>
  \<^verbatim>\<open>AES.new(key, AES.MODE_ECB)\<close> is not code of the repository. The cipher of one
  16-byte block and its inverse are parameters; ECB applies them block by block, and
  the library raises \<^verbatim>\<open>ValueError\<close> on a key that is not 16, 24 or 32 bytes long and
  on data that is not a whole number of blocks.
\<close>

record software_aes =
  encrypt_blk :: "bytes \<Rightarrow> bytes \<Rightarrow> bytes"
  decrypt_blk :: "bytes \<Rightarrow> bytes \<Rightarrow> bytes"

definition split_blocks :: "bytes \<Rightarrow> bytes list" where
  "split_blocks data = map (\<lambda>i. py_slice data (i * 16) ((i + 1) * 16)) [0..<length data div 16]"

definition ecb :: "(bytes \<Rightarrow> bytes \<Rightarrow> bytes) \<Rightarrow> bytes \<Rightarrow> bytes \<Rightarrow> py_error + bytes" where
  "ecb f key data =
     (if length key \<noteq> 16 \<and> length key \<noteq> 24 \<and> length key \<noteq> 32 then
        Inl (ValueError ''Incorrect AES key length'')
      else if length data mod 16 \<noteq> 0 then
        Inl (ValueError ''Data must be aligned to block boundary in ECB mode'')
      else Inr (concat (map (f key) (split_blocks data))))"

definition ecb_encrypt :: "software_aes \<Rightarrow> bytes \<Rightarrow> bytes \<Rightarrow> py_error + bytes" where
  "ecb_encrypt aes key data = ecb (encrypt_blk aes) key data"

definition ecb_decrypt :: "software_aes \<Rightarrow> bytes \<Rightarrow> bytes \<Rightarrow> py_error + bytes" where
  "ecb_decrypt aes key data = ecb (decrypt_blk aes) key data"

definition verify_with_software ::
  "software_aes \<Rightarrow> bytes \<Rightarrow> bytes \<Rightarrow> bytes \<Rightarrow> py_error + bool"
where
  "verify_with_software aes key plaintext hw_ciphertext =
     and_then (ecb_encrypt aes key plaintext) (\<lambda>sw_ciphertext. Inr (hw_ciphertext = sw_ciphertext))"

subsection \<open>Random test vectors\<close>

text \<open>
  \<^verbatim>\<open>run_random_tests\<close> (lines 248-299). \<open>rnd i\<close> is the key and the plaintext that
  \<^verbatim>\<open>os.urandom\<close> gives iteration \<open>i\<close>. The list of cycle counts holds what
  \<^verbatim>\<open>encrypt_block\<close> returned, \<^verbatim>\<open>None\<close> included; arithmetic on a \<^verbatim>\<open>None\<close> raises
  \<^verbatim>\<open>TypeError\<close>. The keys \<^verbatim>\<open>min_cycles\<close>, \<^verbatim>\<open>max_cycles\<close> and \<^verbatim>\<open>avg_cycles\<close> are
  absent from the dictionary when no test passed.
\<close>

record random_stats =
  passed :: int
  failed :: int
  total :: int
  pass_rate :: real
  min_cycles :: "int option"
  max_cycles :: "int option"
  avg_cycles :: "real option"

fun random_loop ::
  "software_aes \<Rightarrow> (nat \<Rightarrow> bytes \<times> bytes) \<Rightarrow> nat list \<Rightarrow> int \<times> int \<times> int option list \<Rightarrow>
   AESBenchmark \<Rightarrow> (py_error + int \<times> int \<times> int option list) \<times> AESBenchmark"
where
  "random_loop aes rnd [] acc bench = (Inr acc, bench)"
| "random_loop aes rnd (i # rest) (n_passed, n_failed, cycle_counts) bench =
     (let (key, plaintext) = rnd i;
          (r, bench') = encrypt_block bench key plaintext
      in case r of
           Inl e \<Rightarrow> (Inl e, bench')
         | Inr (hw_ciphertext, cycles) \<Rightarrow>
             (case hw_ciphertext of
                None \<Rightarrow> random_loop aes rnd rest (n_passed, n_failed + 1, cycle_counts) bench'
              | Some hw \<Rightarrow>
                  (case verify_with_software aes key plaintext hw of
                     Inl e \<Rightarrow> (Inl e, bench')
                   | Inr True \<Rightarrow>
                       random_loop aes rnd rest
                         (n_passed + 1, n_failed, cycle_counts @ [cycles]) bench'
                   | Inr False \<Rightarrow>
                       random_loop aes rnd rest (n_passed, n_failed + 1, cycle_counts) bench')))"

definition random_report :: "int \<Rightarrow> int \<Rightarrow> int \<Rightarrow> int option list \<Rightarrow> py_error + random_stats" where
  "random_report n_passed n_failed num_tests cycle_counts =
     (let stats = \<lparr>passed = n_passed, failed = n_failed, total = num_tests,
                   pass_rate = (if num_tests > 0
                                then real_of_int n_passed / real_of_int num_tests * 100 else 0),
                   min_cycles = None, max_cycles = None, avg_cycles = None\<rparr>
      in if cycle_counts = [] then Inr stats
         else (case those cycle_counts of
                 None \<Rightarrow> Inl TypeError
               | Some cs \<Rightarrow>
                   and_then (py_min cs) (\<lambda>lo.
                   and_then (py_max cs) (\<lambda>hi.
                   and_then (py_div (real_of_int (sum_list cs)) (real (length cs))) (\<lambda>avg.
                     Inr (stats\<lparr>min_cycles := Some lo, max_cycles := Some hi,
                                avg_cycles := Some avg\<rparr>))))))"

definition run_random_tests ::
  "software_aes \<Rightarrow> (nat \<Rightarrow> bytes \<times> bytes) \<Rightarrow> AESBenchmark \<Rightarrow> int \<Rightarrow>
   (py_error + random_stats) \<times> AESBenchmark"
where
  "run_random_tests aes rnd bench num_tests =
     (case random_loop aes rnd [0..<nat num_tests] (0, 0, []) bench of
        (Inl e, bench') \<Rightarrow> (Inl e, bench')
      | (Inr (n_passed, n_failed, cycle_counts), bench') \<Rightarrow>
          (random_report n_passed n_failed num_tests cycle_counts, bench'))"

subsection \<open>Throughput\<close>

text \<open>
  \<^verbatim>\<open>run_throughput_test\<close> (lines 302-333). The clock is the list of the values that
  the calls of \<^verbatim>\<open>time.time()\<close> return, in the order of the calls; \<open>rnd i\<close> is the
  plaintext of iteration \<open>i\<close>. The \<^verbatim>\<open>while\<close> loop runs as long as the clock says
  so: the result is \<open>None\<close> when the list of readings ends before the function has
  read the clock for the last time, so that a run that never leaves the loop has no
  result. The dictionary is built in the order of its keys, and the first division by
  an elapsed time of zero raises.
\<close>

record throughput_stats =
  blocks :: int
  elapsed_sec :: real
  blocks_per_sec :: real
  bytes_per_sec :: real
  kbps :: real
  avg_cycles :: real

fun throughput_loop ::
  "real \<Rightarrow> real \<Rightarrow> bytes \<Rightarrow> (nat \<Rightarrow> bytes) \<Rightarrow> nat \<Rightarrow> real list \<Rightarrow> AESBenchmark \<Rightarrow>
   int \<times> int \<Rightarrow> ((py_error + int \<times> int) \<times> real list \<times> AESBenchmark) option"
where
  "throughput_loop start_time duration_sec key rnd i [] bench acc = None"
| "throughput_loop start_time duration_sec key rnd i (now # clock) bench
     (blocks_encrypted, total_cycles) =
     (if now - start_time < duration_sec then
        (let plaintext = rnd i;
             (r, bench') = encrypt_block bench key plaintext
         in case r of
              Inl e \<Rightarrow> Some (Inl e, clock, bench')
            | Inr (ciphertext, cycles) \<Rightarrow>
                (case ciphertext of
                   None \<Rightarrow>
                     throughput_loop start_time duration_sec key rnd (Suc i) clock bench'
                       (blocks_encrypted, total_cycles)
                 | Some ct \<Rightarrow>
                     (case cycles of
                        None \<Rightarrow> Some (Inl TypeError, clock, bench')
                      | Some c \<Rightarrow>
                          throughput_loop start_time duration_sec key rnd (Suc i) clock bench'
                            (blocks_encrypted + 1, total_cycles + c))))
      else Some (Inr (blocks_encrypted, total_cycles), clock, bench))"

definition throughput_report :: "int \<Rightarrow> int \<Rightarrow> real \<Rightarrow> py_error + throughput_stats" where
  "throughput_report blocks_encrypted total_cycles elapsed =
     and_then (py_div (real_of_int blocks_encrypted) elapsed) (\<lambda>bps.
     and_then (py_div (real_of_int (blocks_encrypted * 16)) elapsed) (\<lambda>byps.
     and_then (py_div (real_of_int (blocks_encrypted * 16 * 8)) elapsed) (\<lambda>bits.
     and_then (if blocks_encrypted > 0
               then py_div (real_of_int total_cycles) (real_of_int blocks_encrypted)
               else Inr 0) (\<lambda>avg.
       Inr \<lparr>blocks = blocks_encrypted, elapsed_sec = elapsed, blocks_per_sec = bps,
            bytes_per_sec = byps, kbps = bits / 1000, avg_cycles = avg\<rparr>))))"

definition run_throughput_test ::
  "real list \<Rightarrow> bytes \<Rightarrow> (nat \<Rightarrow> bytes) \<Rightarrow> AESBenchmark \<Rightarrow> real \<Rightarrow>
   ((py_error + throughput_stats) \<times> AESBenchmark) option"
where
  "run_throughput_test clock key rnd bench duration_sec =
     (case clock of
        [] \<Rightarrow> None
      | start_time # clock1 \<Rightarrow>
          (case throughput_loop start_time duration_sec key rnd 0 clock1 bench (0, 0) of
             None \<Rightarrow> None
           | Some (Inl e, clock2, bench') \<Rightarrow> Some (Inl e, bench')
           | Some (Inr (blocks_encrypted, total_cycles), clock2, bench') \<Rightarrow>
               (case clock2 of
                  [] \<Rightarrow> None
                | now # clock3 \<Rightarrow>
                    Some (throughput_report blocks_encrypted total_cycles (now - start_time),
                          bench'))))"

subsection \<open>Latency\<close>

text \<open>
  \<^verbatim>\<open>run_latency_test\<close> (lines 336-376). \<open>rnd i\<close> is the plaintext of sample \<open>i\<close> and
  \<open>perf i\<close> the two readings of \<^verbatim>\<open>time.perf_counter()\<close> around its round trip. The
  function returns a dictionary with the one key \<^verbatim>\<open>error\<close> when no sample
  succeeded, and the statistics otherwise.
\<close>

record latency_stats =
  samples :: int
  min_latency_ms :: real
  max_latency_ms :: real
  avg_latency_ms :: real
  median_latency_ms :: real
  p95_latency_ms :: real
  p99_latency_ms :: real
  min_hw_cycles :: int
  max_hw_cycles :: int
  avg_hw_cycles :: real

datatype latency_result = ErrorDict string | Stats latency_stats

fun latency_loop ::
  "bytes \<Rightarrow> (nat \<Rightarrow> bytes) \<Rightarrow> (nat \<Rightarrow> real \<times> real) \<Rightarrow> nat list \<Rightarrow> real list \<times> int option list \<Rightarrow>
   AESBenchmark \<Rightarrow> (py_error + real list \<times> int option list) \<times> AESBenchmark"
where
  "latency_loop key rnd perf [] acc bench = (Inr acc, bench)"
| "latency_loop key rnd perf (i # rest) (latencies, hw_cycles) bench =
     (let plaintext = rnd i;
          (start, finish) = perf i;
          (r, bench') = encrypt_block bench key plaintext
      in case r of
           Inl e \<Rightarrow> (Inl e, bench')
         | Inr (ciphertext, cycles) \<Rightarrow>
             (case ciphertext of
                None \<Rightarrow> latency_loop key rnd perf rest (latencies, hw_cycles) bench'
              | Some ct \<Rightarrow>
                  latency_loop key rnd perf rest
                    (latencies @ [(finish - start) * 1000], hw_cycles @ [cycles]) bench'))"

definition latency_report :: "real list \<Rightarrow> int option list \<Rightarrow> py_error + latency_result" where
  "latency_report latencies hw_cycles =
     (if latencies = [] then Inr (ErrorDict ''No successful measurements'')
      else
        (case those hw_cycles of
           None \<Rightarrow> Inl TypeError
         | Some cs \<Rightarrow>
             (let latencies = sort latencies;
                  hw_cycles = sort cs;
                  n = length latencies
              in and_then (py_min latencies) (\<lambda>lo.
                 and_then (py_max latencies) (\<lambda>hi.
                 and_then (py_div (sum_list latencies) (real n)) (\<lambda>avg.
                 and_then (py_index latencies (int n div 2)) (\<lambda>median.
                 and_then (py_index latencies (py_int (real n * 0.95))) (\<lambda>p95.
                 and_then (py_index latencies (py_int (real n * 0.99))) (\<lambda>p99.
                 and_then (py_min hw_cycles) (\<lambda>lo_c.
                 and_then (py_max hw_cycles) (\<lambda>hi_c.
                 and_then (py_div (real_of_int (sum_list hw_cycles)) (real (length hw_cycles)))
                   (\<lambda>avg_c.
                   Inr (Stats \<lparr>samples = int n, min_latency_ms = lo, max_latency_ms = hi,
                                avg_latency_ms = avg, median_latency_ms = median,
                                p95_latency_ms = p95, p99_latency_ms = p99,
                                min_hw_cycles = lo_c, max_hw_cycles = hi_c,
                                avg_hw_cycles = avg_c\<rparr>)))))))))))))"

definition run_latency_test ::
  "bytes \<Rightarrow> (nat \<Rightarrow> bytes) \<Rightarrow> (nat \<Rightarrow> real \<times> real) \<Rightarrow> AESBenchmark \<Rightarrow> int \<Rightarrow>
   (py_error + latency_result) \<times> AESBenchmark"
where
  "run_latency_test key rnd perf bench num_samples =
     (case latency_loop key rnd perf [0..<nat num_samples] ([], []) bench of
        (Inl e, bench') \<Rightarrow> (Inl e, bench')
      | (Inr (latencies, hw_cycles), bench') \<Rightarrow> (latency_report latencies hw_cycles, bench'))"

subsection \<open>Block-wise encryption of a buffer\<close>

text \<open>
  The steps of \<^verbatim>\<open>run_image_test\<close> (lines 379-536) that work on the pixel buffer:
  the padding (lines 418-425), the software encryption (lines 435-436), the hardware
  loop (lines 443-457), the comparison (line 485) and the decryption with its check
  (lines 523-526). Loading and saving the image and the printed timings between these
  steps are not modelled.
\<close>

definition pad_pixels :: "bytes \<Rightarrow> bytes" where
  "pad_pixels pixels =
     (if length pixels mod 16 \<noteq> 0 then
        (let pad_len = 16 - length pixels mod 16 in pixels @ replicate pad_len 0)
      else pixels)"

fun hw_encrypt_loop ::
  "bytes \<Rightarrow> bytes \<Rightarrow> nat list \<Rightarrow> bytes \<times> int option list \<times> int \<Rightarrow> AESBenchmark \<Rightarrow>
   (py_error + bytes \<times> int option list \<times> int) \<times> AESBenchmark"
where
  "hw_encrypt_loop key pixels [] acc bench = (Inr acc, bench)"
| "hw_encrypt_loop key pixels (i # rest) (hw_ciphertext, hw_cycles_list, errors) bench =
     (let block = py_slice pixels (i * 16) ((i + 1) * 16);
          (r, bench') = encrypt_block bench key block
      in case r of
           Inl e \<Rightarrow> (Inl e, bench')
         | Inr (ct, cycles) \<Rightarrow>
             (case ct of
                None \<Rightarrow>
                  hw_encrypt_loop key pixels rest
                    (hw_ciphertext @ replicate 16 0, hw_cycles_list, errors + 1) bench'
              | Some c \<Rightarrow>
                  hw_encrypt_loop key pixels rest
                    (hw_ciphertext @ c, hw_cycles_list @ [cycles], errors) bench'))"

definition hw_encrypt ::
  "AESBenchmark \<Rightarrow> bytes \<Rightarrow> bytes \<Rightarrow> (py_error + bytes \<times> int option list \<times> int) \<times> AESBenchmark"
where
  "hw_encrypt bench key pixels =
     (let num_blocks = length pixels div 16
      in hw_encrypt_loop key pixels [0..<num_blocks] ([], [], 0) bench)"

definition decrypt_check :: "software_aes \<Rightarrow> bytes \<Rightarrow> bytes \<Rightarrow> bytes \<Rightarrow> nat \<Rightarrow> py_error + bool" where
  "decrypt_check aes key hw_ciphertext pixels original_len =
     and_then (ecb_decrypt aes key hw_ciphertext) (\<lambda>decrypted.
       let decrypted = py_slice decrypted 0 original_len
       in Inr (decrypted = py_slice pixels 0 original_len))"

subsection \<open>Example devices\<close>

text \<open>
  Concrete ports for the examples that follow: an accelerator that answers every
  frame with the ciphertext of the FIPS-197 vector and a count of 11 cycles, a device
  that never answers, one that sends five bytes only, and a link that fails.
\<close>

definition example_serial :: "device \<Rightarrow> serial" where
  "example_serial d = \<lparr>is_open = True, in_buffer = [], rx_fault = False, attached = d, ops = []\<rparr>"

definition example_bench :: "device \<Rightarrow> AESBenchmark" where
  "example_bench d =
     \<lparr>port = ''/dev/ttyUSB1'', baudrate = 115200, timeout = 2, ser = Some (example_serial d)\<rparr>"

definition nist_device :: device where
  "nist_device fs = Some (NIST_CT @ [0x0b, 0, 0, 0])"

definition silent_device :: device where
  "silent_device fs = Some []"

definition short_device :: device where
  "short_device fs = Some [0x39, 0x25, 0x84, 0x1d, 0x02]"

definition broken_device :: device where
  "broken_device fs = None"

definition closed_bench :: AESBenchmark where
  "closed_bench = disconnect (example_bench nist_device)"

subsection \<open>What discovery is to find\<close>

text \<open>
  Notions for stating what \<^verbatim>\<open>auto_detect\<close> returns, built from the functions above:
  the ciphertext that the probe of a candidate port obtains (none when the port cannot
  be opened, the round trip fails or raises), whether it is the known ciphertext, and
  the object after the probe. \<open>three_ports\<close> is a machine with three ports of which
  only the second holds an accelerator.
\<close>

definition probe_ciphertext :: "host \<Rightarrow> int \<Rightarrow> real \<Rightarrow> string \<Rightarrow> bytes option" where
  "probe_ciphertext h baud tmo dev =
     (case connect h (init dev baud tmo) of
        (False, bench) \<Rightarrow> None
      | (True, bench) \<Rightarrow>
          (case fst (encrypt_block bench NIST_KEY NIST_PT) of
             Inl e \<Rightarrow> None
           | Inr (ciphertext, cycles) \<Rightarrow> ciphertext))"

definition matches :: "host \<Rightarrow> int \<Rightarrow> real \<Rightarrow> string \<times> string \<Rightarrow> bool" where
  "matches h baud tmo candidate = (probe_ciphertext h baud tmo (fst candidate) = Some NIST_CT)"

definition probed :: "host \<Rightarrow> int \<Rightarrow> real \<Rightarrow> string \<times> string \<Rightarrow> AESBenchmark" where
  "probed h baud tmo candidate =
     snd (validate_with_nist (snd (connect h (init (fst candidate) baud tmo))))"

text \<open>
  What is seen of a port from outside: whether it is open, and the calls made on it.
  \<open>probe_log\<close> is the calls from the opening of a port to the end of its probe;
  \<open>left_behind\<close> is the state in which discovery is to leave a candidate that it
  tried and did not return: no port when the port could not be opened, and otherwise
  the port closed by a call of \<^verbatim>\<open>close\<close> after the probe.
\<close>

definition probe_log :: "serial_op list" where
  "probe_log = [ResetInputBuffer, ResetInputBuffer, Write (NIST_KEY @ NIST_PT @ FRAME_MARKER),
                Flush, Read RX_FRAME_SIZE]"

definition port_state :: "AESBenchmark \<Rightarrow> (bool \<times> serial_op list) option" where
  "port_state b = (case ser b of None \<Rightarrow> None | Some s \<Rightarrow> Some (is_open s, ops s))"

definition left_behind ::
  "host \<Rightarrow> int \<Rightarrow> real \<Rightarrow> string \<times> string \<Rightarrow> string \<times> (bool \<times> serial_op list) option"
where
  "left_behind h baud tmo candidate =
     (fst candidate,
      (case plugged h (fst candidate) baud tmo of
         None \<Rightarrow> None
       | Some line \<Rightarrow> Some (False, probe_log @ [Close])))"

definition three_ports :: host where
  "three_ports =
     \<lparr>comports = [(''COM1'', ''USB Serial''), (''COM2'', ''USB Serial''), (''COM3'', ''USB Serial'')],
      plugged = (\<lambda>p b t. if p = ''COM1'' then Some ([], silent_device)
                         else if p = ''COM2'' then Some ([0x41, 0x45, 0x53], nist_device)
                         else if p = ''COM3'' then Some ([], short_device)
                         else None)\<rparr>"

subsection \<open>A run of ten latency samples\<close>

text \<open>
  An example run of the latency test: the plaintext is the same in every sample, and
  sample \<open>i\<close> takes \<open>i + 1\<close> milliseconds, so that the list of latencies is
  \<open>[1, 2, ..., 10]\<close>. \<open>reported_median\<close> reads the median out of a result.
\<close>

definition fixed_plaintext :: "nat \<Rightarrow> bytes" where
  "fixed_plaintext i = NIST_PT"

definition ten_samples :: "nat \<Rightarrow> real \<times> real" where
  "ten_samples i = (0, (real i + 1) / 1000)"

definition reported_median :: "py_error + latency_result \<Rightarrow> real option" where
  "reported_median r =
     (case r of
        Inl e \<Rightarrow> None
      | Inr (ErrorDict msg) \<Rightarrow> None
      | Inr (Stats st) \<Rightarrow> Some (median_latency_ms st))"

subsection \<open>A toy cipher and its accelerator\<close>

text \<open>
  For an example of the block-wise test: a cipher that adds the key to the block, byte
  by byte (not AES, but a cipher whose decryption inverts its encryption), a device
  that answers every frame with this cipher's ciphertext of the frame's block and a
  count of 11 cycles, and a buffer of 20 bytes.
\<close>

definition toy_aes :: software_aes where
  "toy_aes = \<lparr>encrypt_blk = (\<lambda>k b. map2 (+) b k), decrypt_blk = (\<lambda>k c. map2 (-) c k)\<rparr>"

definition toy_accelerator :: device where
  "toy_accelerator fs =
     (case fs of
        [] \<Rightarrow> Some []
      | f # rest \<Rightarrow>
          (let frame = last fs
           in Some (map2 (+) (take 16 (drop 16 frame)) (take 16 frame) @ [0x0b, 0, 0, 0])))"

definition twenty_pixels :: bytes where
  "twenty_pixels = [1, 2, 3, 4, 5, 6, 7, 8, 9, 10, 11, 12, 13, 14, 15, 16, 17, 18, 19, 20]"

section \<open>Properties\<close>

subsection \<open>One round trip\<close>

lemmas consts16 = KEY_SIZE_def BLOCK_SIZE_def RX_FRAME_SIZE_def FRAME_MARKER_def TX_FRAME_SIZE_def

lemmas serial_defs = reset_input_buffer_def write_frame_def flush_def read_def close_def

lemmas example_defs = example_serial_def example_bench_def nist_device_def silent_device_def
  short_device_def broken_device_def NIST_KEY_def NIST_PT_def NIST_CT_def init_def

lemmas example_defs2 = example_defs closed_bench_def disconnect_def close_def

lemma frames_append: "frames (xs @ ys) = frames xs @ frames ys"
  by (induction xs rule: frames.induct) simp_all

lemma list4: "length xs = 4 \<Longrightarrow> xs = [xs ! 0, xs ! 1, xs ! 2, xs ! 3]"
  by (auto simp: list_eq_iff_nth_eq nth_Cons' numeral_eq_Suc less_Suc_eq)

lemma struct_unpack_I_four:
  "struct_unpack_I [a, b, c, d] = Inr (uint a + 256 * uint b + 65536 * uint c + 16777216 * uint d)"
  by (simp add: struct_unpack_I_def)

lemma struct_unpack_I_tail:
  assumes "length rx = 20"
  shows "struct_unpack_I (drop 16 rx) =
     Inr (uint (rx ! 16) + 256 * uint (rx ! 17) + 65536 * uint (rx ! 18) + 16777216 * uint (rx ! 19))"
proof -
  have "length (drop 16 rx) = 4" using assms by simp
  from list4 [OF this] have "drop 16 rx = [rx ! 16, rx ! 17, rx ! 18, rx ! 19]"
    using assms by simp
  then show ?thesis by (simp add: struct_unpack_I_four)
qed

lemma u32_bound:
  "uint (a::byte) + 256 * uint (b::byte) + 65536 * uint (c::byte) + 16777216 * uint (d::byte) < 2 ^ 32"
proof -
  have "uint a < 256" "uint b < 256" "uint c < 256" "uint d < 256"
    using uint_bounded [of a] uint_bounded [of b] uint_bounded [of c] uint_bounded [of d] by simp_all
  then show ?thesis by simp
qed

text \<open>A call on a missing or closed connection.\<close>

lemma encrypt_block_closed:
  assumes "ser self = None \<or> (\<exists>s. ser self = Some s \<and> \<not> is_open s)"
  shows "encrypt_block self key plaintext = (Inr (None, None), self)"
  using assms by (auto simp: encrypt_block_def)

text \<open>
  A call on an open connection with a key and a plaintext of 16 bytes, by what the
  device does: the four calls on the port, and the result.
\<close>

lemma encrypt_block_open:
  assumes "ser self = Some s" "is_open s" "length key = 16" "length plaintext = 16"
  shows "encrypt_block self key plaintext =
     (let frame = key @ plaintext @ [0xFF, 0xFF];
          log = ops s @ [ResetInputBuffer, Write frame, Flush, Read 20]
      in case attached s (frames (ops s) @ [frame]) of
           None \<Rightarrow> (Inl SerialException,
                     self\<lparr>ser := Some (s\<lparr>in_buffer := [], rx_fault := True, ops := log\<rparr>)\<rparr>)
         | Some rx \<Rightarrow>
             if rx_fault s then
               (Inl SerialException, self\<lparr>ser := Some (s\<lparr>in_buffer := rx, ops := log\<rparr>)\<rparr>)
             else
               (if length rx < 20 then Inr (None, None)
                else (case struct_unpack_I (drop 16 (take 20 rx)) of
                        Inl e \<Rightarrow> Inl e
                      | Inr n \<Rightarrow> Inr (Some (take 16 rx), Some n)),
                self\<lparr>ser := Some (s\<lparr>in_buffer := drop 20 rx, ops := log\<rparr>)\<rparr>))"
  using assms
  by (auto simp: encrypt_block_def consts16 serial_defs frames_append Let_def min_def
      split: option.splits sum.splits)

lemma encrypt_block_reply:
  assumes "ser self = Some s" "is_open s" "\<not> rx_fault s" "length key = 16" "length plaintext = 16"
    and "attached s (frames (ops s) @ [key @ plaintext @ [0xFF, 0xFF]]) = Some rx"
  shows "encrypt_block self key plaintext =
     (if length rx < 20 then Inr (None, None)
      else Inr (Some (take 16 rx),
                Some (uint (rx ! 16) + 256 * uint (rx ! 17) + 65536 * uint (rx ! 18)
                      + 16777216 * uint (rx ! 19))),
      self\<lparr>ser := Some (s\<lparr>in_buffer := drop 20 rx,
         ops := ops s @ [ResetInputBuffer, Write (key @ plaintext @ [0xFF, 0xFF]), Flush, Read 20]\<rparr>)\<rparr>)"
proof (cases "length rx < 20")
  case True
  then show ?thesis using assms by (simp add: encrypt_block_open)
next
  case False
  then have "length (take 20 rx) = 20" by simp
  from struct_unpack_I_tail [OF this] False show ?thesis
    using assms by (simp add: encrypt_block_open)
qed

text \<open>
  C1. On an open connection, for every key and plaintext of exactly 16 bytes, the
  frame written to the port is the key, then the plaintext, then the two bytes
  \<open>0xFF 0xFF\<close>, 34 bytes in all; and for every answer \<open>rx\<close> of exactly 20 bytes the
  call succeeds with the first 16 bytes as the ciphertext and with the last four
  bytes, read as an unsigned 32-bit integer in little-endian order, as the cycle count.
\<close>

theorem request_frame_and_response_decoding:
  assumes "ser self = Some s" "is_open s" "length key = 16" "length plaintext = 16"
  shows "map_option (frames \<circ> ops) (ser (snd (encrypt_block self key plaintext)))
           = Some (frames (ops s) @ [key @ plaintext @ [0xFF, 0xFF]])
      \<and> length (key @ plaintext @ [0xFF, 0xFF]) = 34
      \<and> (\<forall>rx. \<not> rx_fault s
             \<and> attached s (frames (ops s) @ [key @ plaintext @ [0xFF, 0xFF]]) = Some rx
             \<and> length rx = 20
           \<longrightarrow> fst (encrypt_block self key plaintext) =
                 Inr (Some (take 16 rx),
                      Some (uint (rx ! 16) + 256 * uint (rx ! 17) + 65536 * uint (rx ! 18)
                            + 16777216 * uint (rx ! 19))))"
proof (cases "attached s (frames (ops s) @ [key @ plaintext @ [0xFF, 0xFF]])")
  case None
  then show ?thesis using assms by (simp add: encrypt_block_open frames_append)
next
  case (Some rx)
  show ?thesis
  proof (cases "rx_fault s")
    case True
    then show ?thesis using assms Some by (simp add: encrypt_block_open frames_append)
  next
    case False
    then show ?thesis using assms Some by (simp add: encrypt_block_reply frames_append)
  qed
qed

theorem request_frame_and_response_decoding_witness:
  "map_option (frames \<circ> ops) (ser (snd (encrypt_block (example_bench nist_device) NIST_KEY NIST_PT)))
     = Some [NIST_KEY @ NIST_PT @ [0xFF, 0xFF]]
   \<and> length (NIST_KEY @ NIST_PT @ [0xFF, 0xFF]) = 34
   \<and> fst (encrypt_block (example_bench nist_device) NIST_KEY NIST_PT) = Inr (Some NIST_CT, Some 11)"
  using request_frame_and_response_decoding
    [of "example_bench nist_device" "example_serial nist_device" NIST_KEY NIST_PT]
  by (auto simp: example_defs)

text \<open>
  C3, as amended. The three failures have no error kind: the result is the same pair
  \<^verbatim>\<open>(None, None)\<close>. On a missing or closed connection it is returned at once, with
  no call on the port. On an open connection whose link has not failed, when no byte
  at all or some but fewer than 20 bytes arrive, it is returned after one write and
  one read of 20 bytes: the call is not tried again.
\<close>

theorem failed_round_trip_is_none_none:
  "(ser self = None \<or> (\<exists>s. ser self = Some s \<and> \<not> is_open s)
      \<longrightarrow> encrypt_block self key plaintext = (Inr (None, None), self))
   \<and> (\<forall>s rx. ser self = Some s \<and> is_open s \<and> \<not> rx_fault s
          \<and> length key = 16 \<and> length plaintext = 16
          \<and> attached s (frames (ops s) @ [key @ plaintext @ [0xFF, 0xFF]]) = Some rx
          \<and> length rx < 20
        \<longrightarrow> fst (encrypt_block self key plaintext) = Inr (None, None)
          \<and> map_option ops (ser (snd (encrypt_block self key plaintext)))
              = Some (ops s @ [ResetInputBuffer, Write (key @ plaintext @ [0xFF, 0xFF]),
                               Flush, Read 20]))"
proof (intro conjI impI allI)
  assume "ser self = None \<or> (\<exists>s. ser self = Some s \<and> \<not> is_open s)"
  then show "encrypt_block self key plaintext = (Inr (None, None), self)"
    by (rule encrypt_block_closed)
next
  fix s rx
  assume h: "ser self = Some s \<and> is_open s \<and> \<not> rx_fault s
          \<and> length key = 16 \<and> length plaintext = 16
          \<and> attached s (frames (ops s) @ [key @ plaintext @ [0xFF, 0xFF]]) = Some rx
          \<and> length rx < 20"
  then have eq: "encrypt_block self key plaintext =
     (if length rx < 20 then Inr (None, None)
      else Inr (Some (take 16 rx),
                Some (uint (rx ! 16) + 256 * uint (rx ! 17) + 65536 * uint (rx ! 18)
                      + 16777216 * uint (rx ! 19))),
      self\<lparr>ser := Some (s\<lparr>in_buffer := drop 20 rx,
         ops := ops s @ [ResetInputBuffer, Write (key @ plaintext @ [0xFF, 0xFF]), Flush, Read 20]\<rparr>)\<rparr>)"
    by (intro encrypt_block_reply) simp_all
  from eq h show "fst (encrypt_block self key plaintext) = Inr (None, None)" by simp
  from eq show "map_option ops (ser (snd (encrypt_block self key plaintext)))
              = Some (ops s @ [ResetInputBuffer, Write (key @ plaintext @ [0xFF, 0xFF]),
                               Flush, Read 20])" by simp
qed

theorem failed_round_trip_is_none_none_witness:
  "encrypt_block closed_bench NIST_KEY NIST_PT = (Inr (None, None), closed_bench)
   \<and> fst (encrypt_block (example_bench silent_device) NIST_KEY NIST_PT) = Inr (None, None)
   \<and> map_option ops (ser (snd (encrypt_block (example_bench silent_device) NIST_KEY NIST_PT)))
       = Some [ResetInputBuffer, Write (NIST_KEY @ NIST_PT @ [0xFF, 0xFF]), Flush, Read 20]
   \<and> fst (encrypt_block (example_bench short_device) NIST_KEY NIST_PT) = Inr (None, None)
   \<and> map_option ops (ser (snd (encrypt_block (example_bench short_device) NIST_KEY NIST_PT)))
       = Some [ResetInputBuffer, Write (NIST_KEY @ NIST_PT @ [0xFF, 0xFF]), Flush, Read 20]"
proof -
  have a: "ser closed_bench = None \<or> (\<exists>s. ser closed_bench = Some s \<and> \<not> is_open s)"
    by (simp add: example_defs2)
  have b: "ser (example_bench silent_device) = Some (example_serial silent_device)
      \<and> is_open (example_serial silent_device) \<and> \<not> rx_fault (example_serial silent_device)
      \<and> length NIST_KEY = 16 \<and> length NIST_PT = 16
      \<and> attached (example_serial silent_device)
           (frames (ops (example_serial silent_device)) @ [NIST_KEY @ NIST_PT @ [0xFF, 0xFF]]) = Some []
      \<and> length ([]::bytes) < 20"
    by (simp add: example_defs)
  have c: "ser (example_bench short_device) = Some (example_serial short_device)
      \<and> is_open (example_serial short_device) \<and> \<not> rx_fault (example_serial short_device)
      \<and> length NIST_KEY = 16 \<and> length NIST_PT = 16
      \<and> attached (example_serial short_device)
           (frames (ops (example_serial short_device)) @ [NIST_KEY @ NIST_PT @ [0xFF, 0xFF]])
          = Some [0x39, 0x25, 0x84, 0x1d, 0x02]
      \<and> length ([0x39, 0x25, 0x84, 0x1d, 0x02]::bytes) < 20"
    by (simp add: example_defs)
  from failed_round_trip_is_none_none [of closed_bench NIST_KEY NIST_PT] a
  have 1: "encrypt_block closed_bench NIST_KEY NIST_PT = (Inr (None, None), closed_bench)"
    by blast
  from failed_round_trip_is_none_none [of "example_bench silent_device" NIST_KEY NIST_PT] b
  have 2: "fst (encrypt_block (example_bench silent_device) NIST_KEY NIST_PT) = Inr (None, None)
   \<and> map_option ops (ser (snd (encrypt_block (example_bench silent_device) NIST_KEY NIST_PT)))
       = Some (ops (example_serial silent_device)
               @ [ResetInputBuffer, Write (NIST_KEY @ NIST_PT @ [0xFF, 0xFF]), Flush, Read 20])"
    by blast
  from failed_round_trip_is_none_none [of "example_bench short_device" NIST_KEY NIST_PT] c
  have 3: "fst (encrypt_block (example_bench short_device) NIST_KEY NIST_PT) = Inr (None, None)
   \<and> map_option ops (ser (snd (encrypt_block (example_bench short_device) NIST_KEY NIST_PT)))
       = Some (ops (example_serial short_device)
               @ [ResetInputBuffer, Write (NIST_KEY @ NIST_PT @ [0xFF, 0xFF]), Flush, Read 20])"
    by blast
  from 1 2 3 show ?thesis by (simp add: example_serial_def)
qed

text \<open>
  C3 as the specification states it fails: a closed connection, a device that sends
  nothing within the window and a device that sends five bytes give one and the same
  result, \<^verbatim>\<open>(None, None)\<close>, so the three kinds of failure cannot be told apart.
\<close>

theorem failure_kinds_indistinguishable:
  "fst (encrypt_block closed_bench NIST_KEY NIST_PT) = Inr (None, None)
   \<and> fst (encrypt_block (example_bench silent_device) NIST_KEY NIST_PT) = Inr (None, None)
   \<and> fst (encrypt_block (example_bench short_device) NIST_KEY NIST_PT) = Inr (None, None)"
  by (simp add: encrypt_block_closed encrypt_block_reply [of _ "example_serial silent_device"]
      encrypt_block_reply [of _ "example_serial short_device"] example_defs2)

text \<open>
  C4. A round trip that writes its frame (an open connection, a key and a plaintext
  of 16 bytes) makes exactly four calls on the port: it clears the input buffer,
  writes the frame, flushes, and reads once, asking for \<open>RX_FRAME_SIZE = 20\<close> bytes.
  When fewer than 20 bytes arrive the call fails with \<^verbatim>\<open>(None, None)\<close>, or with the
  exception of the port when the link is down; the bytes that did arrive are not
  decoded.
\<close>

theorem one_read_of_20_bytes_per_round_trip:
  assumes "ser self = Some s" "is_open s" "length key = 16" "length plaintext = 16"
  shows "map_option ops (ser (snd (encrypt_block self key plaintext)))
           = Some (ops s @ [ResetInputBuffer, Write (key @ plaintext @ FRAME_MARKER), Flush,
                            Read RX_FRAME_SIZE])
       \<and> RX_FRAME_SIZE = 20
       \<and> (attached s (frames (ops s) @ [key @ plaintext @ FRAME_MARKER]) = None
            \<longrightarrow> fst (encrypt_block self key plaintext) = Inl SerialException)
       \<and> (\<forall>rx. attached s (frames (ops s) @ [key @ plaintext @ FRAME_MARKER]) = Some rx
                \<and> length rx < 20
              \<longrightarrow> fst (encrypt_block self key plaintext)
                    = (if rx_fault s then Inl SerialException else Inr (None, None)))"
proof -
  have m: "FRAME_MARKER = [0xFF, 0xFF]" "RX_FRAME_SIZE = 20" by (simp_all add: consts16)
  note eb = encrypt_block_open [OF assms]
  show ?thesis
  proof (cases "attached s (frames (ops s) @ [key @ plaintext @ [0xFF, 0xFF]])")
    case None
    then show ?thesis unfolding m eb by simp
  next
    case (Some rx)
    then show ?thesis unfolding m eb by simp
  qed
qed

theorem one_read_of_20_bytes_per_round_trip_witness:
  "map_option ops (ser (snd (encrypt_block (example_bench short_device) NIST_KEY NIST_PT)))
     = Some [ResetInputBuffer, Write (NIST_KEY @ NIST_PT @ FRAME_MARKER), Flush, Read 20]
   \<and> fst (encrypt_block (example_bench short_device) NIST_KEY NIST_PT) = Inr (None, None)
   \<and> fst (encrypt_block (example_bench broken_device) NIST_KEY NIST_PT) = Inl SerialException"
proof -
  have len: "length NIST_KEY = 16" "length NIST_PT = 16"
    by (simp_all add: NIST_KEY_def NIST_PT_def)
  have sh: "ser (example_bench short_device) = Some (example_serial short_device)"
    "is_open (example_serial short_device)" "\<not> rx_fault (example_serial short_device)"
    "ops (example_serial short_device) = []"
    "attached (example_serial short_device)
       (frames (ops (example_serial short_device)) @ [NIST_KEY @ NIST_PT @ FRAME_MARKER])
     = Some [0x39, 0x25, 0x84, 0x1d, 0x02]"
    by (simp_all add: example_bench_def example_serial_def short_device_def)
  have br: "ser (example_bench broken_device) = Some (example_serial broken_device)"
    "is_open (example_serial broken_device)"
    "attached (example_serial broken_device)
       (frames (ops (example_serial broken_device)) @ [NIST_KEY @ NIST_PT @ FRAME_MARKER]) = None"
    by (simp_all add: example_bench_def example_serial_def broken_device_def)
  note a = one_read_of_20_bytes_per_round_trip [OF sh(1) sh(2) len]
  note b = one_read_of_20_bytes_per_round_trip [OF br(1) br(2) len]
  from a have 1:
    "map_option ops (ser (snd (encrypt_block (example_bench short_device) NIST_KEY NIST_PT)))
     = Some [ResetInputBuffer, Write (NIST_KEY @ NIST_PT @ FRAME_MARKER), Flush, Read 20]"
    by (simp only: sh(4) append_Nil)
  from a sh(5) have "fst (encrypt_block (example_bench short_device) NIST_KEY NIST_PT)
      = (if rx_fault (example_serial short_device) then Inl SerialException else Inr (None, None))"
    by (elim conjE allE [of _ "[0x39, 0x25, 0x84, 0x1d, 0x02]"]) simp
  with sh(3)
  have 2: "fst (encrypt_block (example_bench short_device) NIST_KEY NIST_PT) = Inr (None, None)"
    by simp
  from b br(3)
  have 3: "fst (encrypt_block (example_bench broken_device) NIST_KEY NIST_PT) = Inl SerialException"
    by blast
  from 1 2 3 show ?thesis by blast
qed

text \<open>
  C7. The request is encoded on an open connection only. There, a key that is not
  exactly 16 bytes long, or a plaintext that is not, makes the call raise
  \<^verbatim>\<open>ValueError\<close> (the length error; it is raised, not returned as
  \<^verbatim>\<open>(None, None)\<close>), before anything is written to the port. The lengths 0, 15, 17,
  33 and 35 are instances.
\<close>

theorem invalid_length_raises:
  assumes "ser self = Some s" "is_open s" "length key \<noteq> 16 \<or> length plaintext \<noteq> 16"
  shows "encrypt_block self key plaintext =
           (Inl (ValueError (if length key \<noteq> 16 then ''Key must be 16 bytes''
                             else ''Plaintext must be 16 bytes'')), self)"
  using assms by (auto simp: encrypt_block_def consts16)

theorem invalid_length_raises_witness:
  "encrypt_block (example_bench nist_device) (replicate 15 0) NIST_PT
     = (Inl (ValueError ''Key must be 16 bytes''), example_bench nist_device)
   \<and> encrypt_block (example_bench nist_device) NIST_KEY (replicate 17 0)
     = (Inl (ValueError ''Plaintext must be 16 bytes''), example_bench nist_device)"
  using invalid_length_raises
      [of "example_bench nist_device" "example_serial nist_device" "replicate 15 0" NIST_PT]
    invalid_length_raises
      [of "example_bench nist_device" "example_serial nist_device" NIST_KEY "replicate 17 0"]
  by (simp add: example_defs)

text \<open>
  C8. When the connection is absent or closed, \<^verbatim>\<open>encrypt_block\<close> returns
  \<^verbatim>\<open>(None, None)\<close> at once for every key and plaintext, whatever their lengths: the
  check of the connection comes before the checks of the lengths, so no
  \<^verbatim>\<open>ValueError\<close> is raised, and the object (and so the log of the port) is unchanged.
\<close>

theorem encrypt_block_not_connected:
  assumes "ser self = None \<or> (\<exists>s. ser self = Some s \<and> is_open s = False)"
  shows "encrypt_block self key plaintext = (Inr (None, None), self)"
  using assms by (auto simp: encrypt_block_def)

theorem encrypt_block_not_connected_witness:
  "encrypt_block (init ''COM3'' 115200 2) [] [0x00] = (Inr (None, None), init ''COM3'' 115200 2)"
  using encrypt_block_not_connected [of "init ''COM3'' 115200 2" "[]" "[0x00]"]
  by (simp add: init_def)

text \<open>
  C9. Whenever \<^verbatim>\<open>encrypt_block\<close> returns (it does not raise), the result is all or
  nothing: either both components are \<^verbatim>\<open>None\<close>, or the ciphertext has exactly 16
  bytes and the cycle count is an integer \<open>n\<close> with \<open>0 \<le> n < 2^32\<close>.
\<close>

theorem encrypt_block_all_or_nothing:
  assumes "encrypt_block self key plaintext = (Inr (ciphertext, cycle_count), self')"
  shows "(ciphertext = None \<and> cycle_count = None)
       \<or> (\<exists>ct n. ciphertext = Some ct \<and> cycle_count = Some n \<and> length ct = 16 \<and> 0 \<le> n \<and> n < 2 ^ 32)"
proof (cases "ser self")
  case None
  then show ?thesis using assms by (simp add: encrypt_block_def)
next
  case (Some s)
  show ?thesis
  proof (cases "is_open s \<and> length key = 16 \<and> length plaintext = 16")
    case False
    then show ?thesis using assms Some by (auto simp: encrypt_block_def consts16 split: if_splits)
  next
    case True
    show ?thesis
    proof (cases "attached s (frames (ops s) @ [key @ plaintext @ [0xFF, 0xFF]])")
      case None
      then show ?thesis using assms Some True by (simp add: encrypt_block_open)
    next
      case (Some rx)
      show ?thesis
      proof (cases "rx_fault s")
        case True
        then show ?thesis using assms \<open>ser self = Some s\<close> \<open>is_open s \<and> _\<close> Some
          by (simp add: encrypt_block_open)
      next
        case False
        then have "encrypt_block self key plaintext =
          (if length rx < 20 then Inr (None, None)
           else Inr (Some (take 16 rx),
                Some (uint (rx ! 16) + 256 * uint (rx ! 17) + 65536 * uint (rx ! 18)
                      + 16777216 * uint (rx ! 19))),
           self\<lparr>ser := Some (s\<lparr>in_buffer := drop 20 rx,
             ops := ops s @ [ResetInputBuffer, Write (key @ plaintext @ [0xFF, 0xFF]), Flush, Read 20]\<rparr>)\<rparr>)"
          using \<open>ser self = Some s\<close> \<open>is_open s \<and> _\<close> Some by (intro encrypt_block_reply) simp_all
        with assms show ?thesis
          using u32_bound [of "rx ! 16" "rx ! 17" "rx ! 18" "rx ! 19"]
          by (auto split: if_splits)
      qed
    qed
  qed
qed

theorem encrypt_block_all_or_nothing_witness:
  "fst (encrypt_block (example_bench nist_device) NIST_KEY NIST_PT) = Inr (Some NIST_CT, Some 11)
   \<and> length NIST_CT = 16 \<and> (0::int) \<le> 11 \<and> (11::int) < 2 ^ 32"
proof -
  have r: "encrypt_block (example_bench nist_device) NIST_KEY NIST_PT
      = (Inr (Some NIST_CT, Some 11), snd (encrypt_block (example_bench nist_device) NIST_KEY NIST_PT))"
    by (simp add: encrypt_block_reply [of _ "example_serial nist_device"] example_defs)
  from encrypt_block_all_or_nothing [OF r]
  have b: "length NIST_CT = 16 \<and> (0::int) \<le> 11 \<and> (11::int) < 2 ^ 32"
    by simp
  from arg_cong [OF r, of fst]
  have "fst (encrypt_block (example_bench nist_device) NIST_KEY NIST_PT) = Inr (Some NIST_CT, Some 11)"
    by (simp only: fst_conv)
  with b show ?thesis by blast
qed

subsection \<open>Discovery\<close>

lemma encrypt_block_keeps:
  assumes "encrypt_block self key plaintext = (r, self')"
  shows "port self' = port self"
    and "(\<exists>s. ser self = Some s \<and> is_open s) \<Longrightarrow> (\<exists>s'. ser self' = Some s' \<and> is_open s')"
  using assms
  by (auto simp: encrypt_block_def serial_defs Let_def split: option.splits if_splits sum.splits prod.splits)

lemma validate_keeps:
  assumes "validate_with_nist self = (r, self')"
  shows "port self' = port self"
    and "(\<exists>s. ser self = Some s \<and> is_open s) \<Longrightarrow> (\<exists>s'. ser self' = Some s' \<and> is_open s')"
proof -
  obtain r0 b0 where e: "encrypt_block self NIST_KEY NIST_PT = (r0, b0)" by (cases "encrypt_block self NIST_KEY NIST_PT")
  with assms have "self' = b0"
    by (auto simp: validate_with_nist_def split: sum.splits option.splits prod.splits)
  with encrypt_block_keeps [OF e] show "port self' = port self"
    and "(\<exists>s. ser self = Some s \<and> is_open s) \<Longrightarrow> (\<exists>s'. ser self' = Some s' \<and> is_open s')"
    by simp_all
qed

lemma connect_result:
  assumes "connect h (init dev baud tmo) = (ok, bench)"
  shows "port bench = dev"
    and "ok \<Longrightarrow> \<exists>s. ser bench = Some s \<and> is_open s"
    and "\<not> ok \<Longrightarrow> ser bench = None"
  using assms
  by (auto simp: connect_def init_def Serial_def reset_input_buffer_def split: option.splits prod.splits)

lemma disconnect_closed:
  "port (disconnect self) = port self"
  "ser (disconnect self) = Some s \<Longrightarrow> \<not> is_open s"
  by (auto simp: disconnect_def close_def split: option.splits if_splits)

lemma validate_matches:
  assumes "connect h (init dev baud tmo) = (True, bench)"
  shows "fst (validate_with_nist bench) = Inr True \<longleftrightarrow> matches h baud tmo (dev, description)"
  using assms
  by (auto simp: matches_def probe_ciphertext_def validate_with_nist_def
      split: prod.splits sum.splits option.splits)

lemma auto_detect_loop_spec:
  "fst (auto_detect_loop h baud tmo ports)
     = map_option (probed h baud tmo) (find (matches h baud tmo) ports)
   \<and> map port (snd (auto_detect_loop h baud tmo ports))
     = map fst (takeWhile (\<lambda>c. \<not> matches h baud tmo c) ports)
   \<and> (\<forall>b \<in> set (snd (auto_detect_loop h baud tmo ports)). \<forall>s. ser b = Some s \<longrightarrow> \<not> is_open s)
   \<and> (\<forall>b. fst (auto_detect_loop h baud tmo ports) = Some b \<longrightarrow> (\<exists>s. ser b = Some s \<and> is_open s))"
proof (induction ports)
  case Nil
  show ?case by simp
next
  case (Cons c ports)
  obtain dev description where c: "c = (dev, description)" by (cases c)
  obtain ok bench where cn: "connect h (init dev baud tmo) = (ok, bench)"
    by (cases "connect h (init dev baud tmo)")
  obtain found dropped where rest: "auto_detect_loop h baud tmo ports = (found, dropped)"
    by (cases "auto_detect_loop h baud tmo ports")
  note cr = connect_result [OF cn]
  show ?case
  proof (cases ok)
    case False
    have nm: "\<not> matches h baud tmo c"
      using cn False by (simp add: matches_def probe_ciphertext_def c)
    show ?thesis using Cons.IH cn False rest nm cr by (simp add: c)
  next
    case True
    obtain r bench' where v: "validate_with_nist bench = (r, bench')"
      by (cases "validate_with_nist bench")
    note vk = validate_keeps [OF v]
    from validate_matches [of h dev baud tmo bench description] cn True v
    have m: "r = Inr True \<longleftrightarrow> matches h baud tmo c" by (simp add: c)
    show ?thesis
    proof (cases "r = Inr True")
      case True
      with m have "matches h baud tmo c" by simp
      moreover have "probed h baud tmo c = bench'" using cn v by (simp add: probed_def c)
      ultimately show ?thesis using cn \<open>ok\<close> v True vk cr by (simp add: c)
    next
      case False
      with m have nm: "\<not> matches h baud tmo c" by simp
      have step: "auto_detect_loop h baud tmo (c # ports) = (found, disconnect bench' # dropped)"
        using cn \<open>ok\<close> v False rest by (cases r) (auto simp: c split: bool.splits)
      show ?thesis unfolding step using Cons.IH rest nm vk cr disconnect_closed [of bench']
        by (simp add: c)
    qed
  qed
qed

lemma connect_state:
  assumes "connect h (init dev baud tmo) = (ok, bench)"
  shows "ok \<longleftrightarrow> plugged h dev baud tmo \<noteq> None"
    and "ok \<Longrightarrow> port_state bench = Some (True, [ResetInputBuffer])"
    and "\<not> ok \<Longrightarrow> port_state bench = None"
  using assms
  by (auto simp: connect_def init_def Serial_def reset_input_buffer_def port_state_def
      split: option.splits prod.splits)

lemma encrypt_block_state:
  assumes "port_state self = Some (True, calls)" "length key = 16" "length plaintext = 16"
  shows "port_state (snd (encrypt_block self key plaintext))
         = Some (True, calls @ [ResetInputBuffer, Write (key @ plaintext @ [0xFF, 0xFF]), Flush, Read 20])"
proof -
  from assms(1) obtain s where s: "ser self = Some s" "is_open s" "ops s = calls"
    by (auto simp: port_state_def split: option.splits)
  show ?thesis
    unfolding encrypt_block_open [OF s(1,2) assms(2,3)]
    using s by (simp add: port_state_def Let_def split: option.splits)
qed

lemma validate_state:
  assumes "validate_with_nist self = (r, self')" "port_state self = Some (True, [ResetInputBuffer])"
  shows "port_state self' = Some (True, probe_log)"
proof -
  have "self' = snd (encrypt_block self NIST_KEY NIST_PT)"
    using assms(1) by (auto simp: validate_with_nist_def split: sum.splits option.splits prod.splits)
  with encrypt_block_state [OF assms(2), of NIST_KEY NIST_PT] show ?thesis
    by (simp add: probe_log_def consts16 NIST_KEY_def NIST_PT_def)
qed

lemma disconnect_state:
  assumes "port_state self = Some (True, calls)"
  shows "port_state (disconnect self) = Some (False, calls @ [Close])"
  using assms by (auto simp: port_state_def disconnect_def close_def split: option.splits)

lemma auto_detect_loop_states:
  "map (\<lambda>b. (port b, port_state b)) (snd (auto_detect_loop h baud tmo ports))
     = map (left_behind h baud tmo) (takeWhile (\<lambda>c. \<not> matches h baud tmo c) ports)
   \<and> (\<forall>b. fst (auto_detect_loop h baud tmo ports) = Some b \<longrightarrow> port_state b = Some (True, probe_log))"
proof (induction ports)
  case Nil
  show ?case by simp
next
  case (Cons c ports)
  obtain dev description where c: "c = (dev, description)" by (cases c)
  obtain ok bench where cn: "connect h (init dev baud tmo) = (ok, bench)"
    by (cases "connect h (init dev baud tmo)")
  obtain found dropped where rest: "auto_detect_loop h baud tmo ports = (found, dropped)"
    by (cases "auto_detect_loop h baud tmo ports")
  note cr = connect_result [OF cn]
  note cs = connect_state [OF cn]
  show ?case
  proof (cases ok)
    case False
    have nm: "\<not> matches h baud tmo c"
      using cn False by (simp add: matches_def probe_ciphertext_def c)
    have lb: "left_behind h baud tmo c = (dev, None)"
      using cs(1) False by (cases "plugged h dev baud tmo") (simp_all add: left_behind_def c)
    have step: "auto_detect_loop h baud tmo (c # ports) = (found, bench # dropped)"
      using cn False rest by (simp add: c)
    show ?thesis unfolding step using Cons.IH rest nm lb cr(1) cs(3) False by simp
  next
    case True
    obtain r bench' where v: "validate_with_nist bench = (r, bench')"
      by (cases "validate_with_nist bench")
    note vk = validate_keeps [OF v]
    note vs = validate_state [OF v cs(2) [OF True]]
    from validate_matches [of h dev baud tmo bench description] cn True v
    have m: "r = Inr True \<longleftrightarrow> matches h baud tmo c" by (simp add: c)
    show ?thesis
    proof (cases "r = Inr True")
      case True
      with m have mt: "matches h baud tmo c" by simp
      have step: "auto_detect_loop h baud tmo (c # ports) = (Some bench', [])"
        using cn \<open>ok\<close> v True by (simp add: c)
      show ?thesis unfolding step using mt vs by simp
    next
      case False
      with m have nm: "\<not> matches h baud tmo c" by simp
      have step: "auto_detect_loop h baud tmo (c # ports) = (found, disconnect bench' # dropped)"
        using cn \<open>ok\<close> v False rest by (cases r) (auto simp: c split: bool.splits)
      have lb: "left_behind h baud tmo c = (dev, Some (False, probe_log @ [Close]))"
        using cs(1) True by (cases "plugged h dev baud tmo") (simp_all add: left_behind_def c)
      show ?thesis unfolding step
        using Cons.IH rest nm lb vk(1) cr(1) disconnect_state [OF vs] disconnect_closed(1) [of bench']
        by simp
    qed
  qed
qed

text \<open>
  C5. For every list of candidate ports, \<^verbatim>\<open>auto_detect\<close> returns the object of the
  first candidate whose probe ciphertext equals the known ciphertext (and \<^verbatim>\<open>None\<close>
  when there is none), with its connection open: the calls on its port are those of
  the opening and of the probe, and no \<^verbatim>\<open>close\<close>. The objects it dropped are those
  of the candidates before that one, all the candidates when none matches, the last
  one tried included. Each of them whose port could be opened has this port closed,
  by a call of \<^verbatim>\<open>close\<close> that is the last call on the port, after the probe; the
  others never had a port.
\<close>

theorem auto_detect_first_match:
  "fst (auto_detect h baud tmo)
     = map_option (probed h baud tmo) (find (matches h baud tmo) (comports h))
   \<and> (\<forall>b. fst (auto_detect h baud tmo) = Some b \<longrightarrow> (\<exists>s. ser b = Some s \<and> is_open s))
   \<and> map port (snd (auto_detect h baud tmo))
     = map fst (takeWhile (\<lambda>c. \<not> matches h baud tmo c) (comports h))
   \<and> (\<forall>b \<in> set (snd (auto_detect h baud tmo)). \<forall>s. ser b = Some s \<longrightarrow> \<not> is_open s)
   \<and> (\<forall>b. fst (auto_detect h baud tmo) = Some b \<longrightarrow> port_state b = Some (True, probe_log))
   \<and> map (\<lambda>b. (port b, port_state b)) (snd (auto_detect h baud tmo))
     = map (left_behind h baud tmo) (takeWhile (\<lambda>c. \<not> matches h baud tmo c) (comports h))"
proof (cases "comports h = []")
  case True
  then show ?thesis by (simp add: auto_detect_def list_serial_ports_def)
next
  case False
  then have "auto_detect h baud tmo = auto_detect_loop h baud tmo (comports h)"
    by (simp add: auto_detect_def list_serial_ports_def)
  with auto_detect_loop_spec [of h baud tmo "comports h"]
    auto_detect_loop_states [of h baud tmo "comports h"]
  show ?thesis by simp
qed

lemma three_ports_matches:
  "\<not> matches three_ports 115200 1 (''COM1'', ''USB Serial'')"
  "matches three_ports 115200 1 (''COM2'', ''USB Serial'')"
  by (simp_all add: matches_def probe_ciphertext_def connect_def Serial_def init_def three_ports_def
      reset_input_buffer_def silent_device_def nist_device_def
      encrypt_block_reply [where rx = "[]"] encrypt_block_reply [where rx = "NIST_CT @ [0x0b, 0, 0, 0]"]
      NIST_KEY_def NIST_PT_def NIST_CT_def)

theorem auto_detect_first_match_witness:
  "map_option (\<lambda>b. (port b, port_state b)) (fst (auto_detect three_ports 115200 1))
     = Some (''COM2'', Some (True, probe_log))
   \<and> map (\<lambda>b. (port b, port_state b)) (snd (auto_detect three_ports 115200 1))
     = [(''COM1'', Some (False, probe_log @ [Close]))]"
proof -
  note t = auto_detect_first_match [of three_ports 115200 1]
  have f: "find (matches three_ports 115200 1) (comports three_ports) = Some (''COM2'', ''USB Serial'')"
    and tw: "takeWhile (\<lambda>c. \<not> matches three_ports 115200 1 c) (comports three_ports)
             = [(''COM1'', ''USB Serial'')]"
    using three_ports_matches by (simp_all add: three_ports_def)
  from t f have 1: "fst (auto_detect three_ports 115200 1)
      = Some (probed three_ports 115200 1 (''COM2'', ''USB Serial''))" by simp
  have lb: "left_behind three_ports 115200 1 (''COM1'', ''USB Serial'')
      = (''COM1'', Some (False, probe_log @ [Close]))"
    by (simp add: left_behind_def three_ports_def)
  from t tw lb have 2: "map (\<lambda>b. (port b, port_state b)) (snd (auto_detect three_ports 115200 1))
     = [(''COM1'', Some (False, probe_log @ [Close]))]" by simp
  from t 1 have 3: "port_state (probed three_ports 115200 1 (''COM2'', ''USB Serial''))
      = Some (True, probe_log)" by simp
  have 4: "port (probed three_ports 115200 1 (''COM2'', ''USB Serial'')) = ''COM2''"
    using validate_keeps(1) [OF surjective_pairing]
      connect_result(1) [OF surjective_pairing]
    by (simp add: probed_def)
  from 1 2 3 4 show ?thesis by simp
qed

subsection \<open>Latency statistics\<close>

lemma encrypt_block_shape:
  assumes "encrypt_block self key plaintext = (Inr (Some ct, cycle_count), self')"
  shows "\<exists>n. cycle_count = Some n"
  using assms
  by (auto simp: encrypt_block_def serial_defs Let_def
      split: option.splits if_splits sum.splits prod.splits)

lemma latency_loop_lists:
  assumes "latency_loop key rnd perf is (lats, cycs) bench = (Inr (lats', cycs'), bench')"
    and "length cycs = length lats" "None \<notin> set cycs"
  shows "length cycs' = length lats' \<and> None \<notin> set cycs'"
  using assms
proof (induction "is" arbitrary: lats cycs bench)
  case Nil
  then show ?case by simp
next
  case (Cons i rest)
  obtain r b1 where e: "encrypt_block bench key (rnd i) = (r, b1)"
    by (cases "encrypt_block bench key (rnd i)")
  show ?case
  proof (cases r)
    case (Inl err)
    with Cons.prems e show ?thesis by (simp split: prod.splits)
  next
    case (Inr pair)
    obtain ct cy where p: "pair = (ct, cy)" by (cases pair)
    show ?thesis
    proof (cases ct)
      case None
      with Cons.prems e Inr p have "latency_loop key rnd perf rest (lats, cycs) b1 = (Inr (lats', cycs'), bench')"
        by (simp split: prod.splits)
      from Cons.IH [OF this Cons.prems(2,3)] show ?thesis .
    next
      case (Some c)
      with e Inr p encrypt_block_shape obtain n where n: "cy = Some n" by blast
      obtain st fi where pf: "perf i = (st, fi)" by (cases "perf i")
      from Cons.prems e Inr p Some pf
      have "latency_loop key rnd perf rest (lats @ [(fi - st) * 1000], cycs @ [cy]) b1
            = (Inr (lats', cycs'), bench')"
        by simp
      from Cons.IH [OF this] Cons.prems(2,3) n show ?thesis by simp
    qed
  qed
qed

lemma no_None_map_Some: "None \<notin> set xs \<Longrightarrow> \<exists>cs. xs = map Some cs"
proof (induction xs)
  case Nil
  then show ?case by simp
next
  case (Cons a xs)
  then obtain cs where "xs = map Some cs" by auto
  moreover from Cons.prems obtain y where "a = Some y" by (cases a) auto
  ultimately have "a # xs = map Some (y # cs)" by simp
  then show ?case by (rule exI)
qed

lemma py_min_Min: "xs \<noteq> [] \<Longrightarrow> py_min xs = Inr (Min (set xs))"
proof (cases xs)
  case Nil
  assume "xs \<noteq> []"
  with Nil show ?thesis by simp
next
  case (Cons a list)
  have "Min (set (a # list)) = fold min list a" by (rule Min.set_eq_fold)
  with Cons show ?thesis by (simp add: py_min_def)
qed

lemma py_max_Max: "xs \<noteq> [] \<Longrightarrow> py_max xs = Inr (Max (set xs))"
proof (cases xs)
  case Nil
  assume "xs \<noteq> []"
  with Nil show ?thesis by simp
next
  case (Cons a list)
  have "Max (set (a # list)) = fold max list a" by (rule Max.set_eq_fold)
  with Cons show ?thesis by (simp add: py_max_def)
qed

lemma py_index_nat: "i < length xs \<Longrightarrow> py_index xs (int i) = Inr (xs ! i)"
  by (simp add: py_index_def)

lemma percentile_index:
  assumes "0 < n" "0 \<le> q" "q < 1"
  shows "py_int (real n * q) = int (nat \<lfloor>real n * q\<rfloor>)" "nat \<lfloor>real n * q\<rfloor> < n"
proof -
  have nn: "0 \<le> real n * q" using assms by simp
  then show "py_int (real n * q) = int (nat \<lfloor>real n * q\<rfloor>)" by (simp add: py_int_def)
  have "real n * q < real n" using assms by simp
  then have "\<lfloor>real n * q\<rfloor> < int n" by (simp add: floor_less_iff)
  with nn show "nat \<lfloor>real n * q\<rfloor> < n" by linarith
qed

lemma latency_report_stats:
  assumes "latencies \<noteq> []" "length cs = length latencies"
  shows "latency_report latencies (map Some cs) =
     Inr (Stats \<lparr>samples = int (length latencies),
                 min_latency_ms = Min (set latencies),
                 max_latency_ms = Max (set latencies),
                 avg_latency_ms = sum_list (sort latencies) / real (length latencies),
                 median_latency_ms = sort latencies ! (length latencies div 2),
                 p95_latency_ms = sort latencies ! nat \<lfloor>real (length latencies) * 0.95\<rfloor>,
                 p99_latency_ms = sort latencies ! nat \<lfloor>real (length latencies) * 0.99\<rfloor>,
                 min_hw_cycles = Min (set cs),
                 max_hw_cycles = Max (set cs),
                 avg_hw_cycles = real_of_int (sum_list (sort cs)) / real (length cs)\<rparr>)"
proof -
  let ?n = "length latencies"
  have n: "0 < ?n" using assms by simp
  have cs: "cs \<noteq> []" using assms by auto
  have th: "those (map Some cs) = Some cs" by (induction cs) simp_all
  have s1: "sort latencies \<noteq> []" "sort cs \<noteq> []" using assms cs
    by (metis length_sort length_0_conv)+
  have mid: "py_index (sort latencies) (int ?n div 2) = Inr (sort latencies ! (?n div 2))"
    using py_index_nat [of "?n div 2" "sort latencies"] n by (simp add: zdiv_int)
  have p95: "py_index (sort latencies) (py_int (real ?n * 0.95))
              = Inr (sort latencies ! nat \<lfloor>real ?n * 0.95\<rfloor>)"
    using percentile_index [OF n, of "0.95"] py_index_nat [of "nat \<lfloor>real ?n * 0.95\<rfloor>" "sort latencies"]
    by simp
  have p99: "py_index (sort latencies) (py_int (real ?n * 0.99))
              = Inr (sort latencies ! nat \<lfloor>real ?n * 0.99\<rfloor>)"
    using percentile_index [OF n, of "0.99"] py_index_nat [of "nat \<lfloor>real ?n * 0.99\<rfloor>" "sort latencies"]
    by simp
  have mm: "py_min (sort latencies) = Inr (Min (set latencies))"
    "py_max (sort latencies) = Inr (Max (set latencies))"
    "py_min (sort cs) = Inr (Min (set cs))" "py_max (sort cs) = Inr (Max (set cs))"
    using py_min_Min [OF s1(1)] py_max_Max [OF s1(1)] py_min_Min [OF s1(2)] py_max_Max [OF s1(2)]
    by simp_all
  show ?thesis
    using assms(1) n cs s1 mid p95 p99 mm
    by (simp add: latency_report_def th Let_def and_then_def py_div_def)
qed

lemma latency_loop_nist_device:
  assumes "ser bench = Some s" "is_open s" "\<not> rx_fault s" "attached s = nist_device"
    and "length key = 16" "\<forall>i. length (rnd i) = 16"
  shows "fst (latency_loop key rnd perf is (lats, cycs) bench)
         = Inr (lats @ map (\<lambda>i. (snd (perf i) - fst (perf i)) * 1000) is,
                cycs @ map (\<lambda>i. Some 11) is)"
  using assms(1-4)
proof (induction "is" arbitrary: lats cycs bench s)
  case Nil
  show ?case by simp
next
  case (Cons i rest)
  have rx: "attached s (frames (ops s) @ [key @ rnd i @ [0xFF, 0xFF]]) = Some (NIST_CT @ [0x0b, 0, 0, 0])"
    using Cons.prems by (simp add: nist_device_def)
  have len: "length (rnd i) = 16" using assms by simp
  note e = encrypt_block_reply [OF Cons.prems(1-3) assms(5) len rx]
  let ?s' = "s\<lparr>in_buffer := drop 20 (NIST_CT @ [0x0b, 0, 0, 0]),
         ops := ops s @ [ResetInputBuffer, Write (key @ rnd i @ [0xFF, 0xFF]), Flush, Read 20]\<rparr>"
  have ih: "fst (latency_loop key rnd perf rest
                  (lats @ [(snd (perf i) - fst (perf i)) * 1000], cycs @ [Some 11])
                  (bench\<lparr>ser := Some ?s'\<rparr>))
            = Inr ((lats @ [(snd (perf i) - fst (perf i)) * 1000])
                     @ map (\<lambda>i. (snd (perf i) - fst (perf i)) * 1000) rest,
                   (cycs @ [Some 11]) @ map (\<lambda>i. Some 11) rest)"
    by (rule Cons.IH [of _ ?s']) (use Cons.prems in simp_all)
  show ?case
    using ih by (simp add: e NIST_CT_def case_prod_beta)
qed

text \<open>
  C2, as amended. When the loop of the latency test has collected at least one
  sample, the test sorts the latencies and, on their own, the cycle counts (each a
  proper integer, as many as there are latencies), and reports as the median the
  element at index \<open>len div 2\<close> of the sorted latencies, as the 95th percentile the
  element at index \<open>\<lfloor>len * 0.95\<rfloor>\<close> and as the 99th the element at index
  \<open>\<lfloor>len * 0.99\<rfloor>\<close>; no index is out of range. The products are taken in the
  reals: the rounding of Python's floating-point product is not modelled. For the
  sample list \<open>[1, ..., 10]\<close> the median reported is 6, the element at index 5.
\<close>

theorem latency_percentiles:
  assumes "fst (latency_loop key rnd perf [0..<nat num_samples] ([], []) bench)
           = Inr (latencies, hw_cycles)"
    and "latencies \<noteq> []"
  shows "\<exists>cs. hw_cycles = map Some cs \<and> length cs = length latencies
     \<and> fst (run_latency_test key rnd perf bench num_samples) =
       Inr (Stats \<lparr>samples = int (length latencies),
                 min_latency_ms = Min (set latencies),
                 max_latency_ms = Max (set latencies),
                 avg_latency_ms = sum_list (sort latencies) / real (length latencies),
                 median_latency_ms = sort latencies ! (length latencies div 2),
                 p95_latency_ms = sort latencies ! nat \<lfloor>real (length latencies) * 0.95\<rfloor>,
                 p99_latency_ms = sort latencies ! nat \<lfloor>real (length latencies) * 0.99\<rfloor>,
                 min_hw_cycles = Min (set cs),
                 max_hw_cycles = Max (set cs),
                 avg_hw_cycles = real_of_int (sum_list (sort cs)) / real (length cs)\<rparr>)"
proof -
  obtain bench' where l: "latency_loop key rnd perf [0..<nat num_samples] ([], []) bench
      = (Inr (latencies, hw_cycles), bench')"
    using assms(1) by (cases "latency_loop key rnd perf [0..<nat num_samples] ([], []) bench") simp
  from latency_loop_lists [OF l] have inv: "length hw_cycles = length latencies" "None \<notin> set hw_cycles"
    by simp_all
  from no_None_map_Some [OF inv(2)] obtain cs where cs: "hw_cycles = map Some cs" ..
  with inv have len: "length cs = length latencies" by simp
  have "fst (run_latency_test key rnd perf bench num_samples) = latency_report latencies (map Some cs)"
    using l cs by (simp add: run_latency_test_def)
  with latency_report_stats [OF assms(2) len] cs len show ?thesis by simp
qed

lemma ten_latencies:
  "fst (latency_loop NIST_KEY fixed_plaintext ten_samples [0..<10] ([], []) (example_bench nist_device))
   = Inr ([1, 2, 3, 4, 5, 6, 7, 8, 9, 10], replicate 10 (Some 11))"
proof -
  have u: "[0..<10] = [0, 1, 2, 3, 4, 5, 6, 7, 8, 9]" by (simp add: upt_rec)
  show ?thesis
    unfolding u
    by (subst latency_loop_nist_device [of _ "example_serial nist_device"])
       (simp_all add: example_bench_def example_serial_def fixed_plaintext_def ten_samples_def
         NIST_KEY_def NIST_PT_def numeral_eq_Suc)
qed

lemma ten_latencies_nat:
  "fst (latency_loop NIST_KEY fixed_plaintext ten_samples [0..<nat 10] ([], []) (example_bench nist_device))
   = Inr ([1, 2, 3, 4, 5, 6, 7, 8, 9, 10], replicate 10 (Some 11))"
  using ten_latencies by simp

lemma run_latency_test_fst:
  "fst (run_latency_test key rnd perf bench num_samples) =
     (case fst (latency_loop key rnd perf [0..<nat num_samples] ([], []) bench) of
        Inl e \<Rightarrow> Inl e
      | Inr (latencies, hw_cycles) \<Rightarrow> latency_report latencies hw_cycles)"
  by (simp add: run_latency_test_def split: prod.splits sum.splits)

lemma sort_one_to_ten: "sort [1, 2, 3, 4, 5, 6, 7, 8, 9, 10 :: real] = [1, 2, 3, 4, 5, 6, 7, 8, 9, 10]"
  by simp

lemma ten_report:
  "latency_report [1, 2, 3, 4, 5, 6, 7, 8, 9, 10] (replicate 10 (Some 11)) =
     Inr (Stats \<lparr>samples = 10, min_latency_ms = 1, max_latency_ms = 10, avg_latency_ms = 11 / 2,
                 median_latency_ms = 6, p95_latency_ms = 10, p99_latency_ms = 10,
                 min_hw_cycles = 11, max_hw_cycles = 11, avg_hw_cycles = 11\<rparr>)"
proof -
  have r: "replicate 10 (Some (11::int)) = map Some (replicate 10 11)" by simp
  have s: "sort (replicate 10 (11::int)) = replicate 10 11"
    by (simp add: numeral_eq_Suc)
  show ?thesis
    unfolding r
    by (subst latency_report_stats) (simp_all add: sort_one_to_ten s sum_list_replicate)
qed

text \<open>
  C2 as the specification states it fails: for the sample list \<open>[1, ..., 10]\<close> the
  median that is reported is 6, not 5.
\<close>

theorem median_of_one_to_ten_is_six:
  "reported_median
     (fst (run_latency_test NIST_KEY fixed_plaintext ten_samples (example_bench nist_device) 10))
     = Some 6
   \<and> reported_median (latency_report [1, 2, 3, 4, 5, 6, 7, 8, 9, 10] (replicate 10 (Some 11))) = Some 6
   \<and> Some (6::real) \<noteq> Some 5"
  by (simp add: run_latency_test_fst ten_latencies ten_report reported_median_def)

theorem latency_percentiles_witness:
  "fst (run_latency_test NIST_KEY fixed_plaintext ten_samples (example_bench nist_device) 10) =
     Inr (Stats \<lparr>samples = 10, min_latency_ms = 1, max_latency_ms = 10, avg_latency_ms = 11 / 2,
                 median_latency_ms = 6, p95_latency_ms = 10, p99_latency_ms = 10,
                 min_hw_cycles = 11, max_hw_cycles = 11, avg_hw_cycles = 11\<rparr>)"
proof -
  have ne: "[1, 2, 3, 4, 5, 6, 7, 8, 9, 10 :: real] \<noteq> []" by simp
  from latency_percentiles [OF ten_latencies_nat ne] obtain cs where
    cs: "replicate 10 (Some (11::int)) = map Some cs" and
    st: "fst (run_latency_test NIST_KEY fixed_plaintext ten_samples (example_bench nist_device) 10) =
       Inr (Stats \<lparr>samples = int (length [1, 2, 3, 4, 5, 6, 7, 8, 9, 10 :: real]),
                 min_latency_ms = Min (set [1, 2, 3, 4, 5, 6, 7, 8, 9, 10]),
                 max_latency_ms = Max (set [1, 2, 3, 4, 5, 6, 7, 8, 9, 10]),
                 avg_latency_ms = sum_list (sort [1, 2, 3, 4, 5, 6, 7, 8, 9, 10])
                                  / real (length [1, 2, 3, 4, 5, 6, 7, 8, 9, 10 :: real]),
                 median_latency_ms = sort [1, 2, 3, 4, 5, 6, 7, 8, 9, 10]
                                     ! (length [1, 2, 3, 4, 5, 6, 7, 8, 9, 10 :: real] div 2),
                 p95_latency_ms = sort [1, 2, 3, 4, 5, 6, 7, 8, 9, 10]
                     ! nat \<lfloor>real (length [1, 2, 3, 4, 5, 6, 7, 8, 9, 10 :: real]) * 0.95\<rfloor>,
                 p99_latency_ms = sort [1, 2, 3, 4, 5, 6, 7, 8, 9, 10]
                     ! nat \<lfloor>real (length [1, 2, 3, 4, 5, 6, 7, 8, 9, 10 :: real]) * 0.99\<rfloor>,
                 min_hw_cycles = Min (set cs),
                 max_hw_cycles = Max (set cs),
                 avg_hw_cycles = real_of_int (sum_list (sort cs)) / real (length cs)\<rparr>)"
    by blast
  have "map Some (replicate 10 (11::int)) = map Some cs" using cs by simp
  then have c: "cs = replicate 10 11" by (simp only: inj_map_eq_map [OF inj_Some])
  have s: "sort (replicate 10 (11::int)) = replicate 10 11"
    by (simp add: numeral_eq_Suc)
  show ?thesis unfolding st c by (simp add: sort_one_to_ten s sum_list_replicate)
qed

subsection \<open>Guarded divisions of the statistics\<close>

lemma those_length: "those xs = Some ys \<Longrightarrow> length ys = length xs"
  by (induction xs arbitrary: ys) (auto split: option.splits)

lemma random_report_no_zero_division:
  "random_report n_passed n_failed num_tests cycle_counts \<noteq> Inl ZeroDivisionError"
proof (cases "cycle_counts = []")
  case True
  then show ?thesis by (simp add: random_report_def)
next
  case False
  show ?thesis
  proof (cases "those cycle_counts")
    case None
    with False show ?thesis by (simp add: random_report_def)
  next
    case (Some cs)
    from those_length [OF Some] False have ne: "cs \<noteq> []" by auto
    then obtain c rest where "cs = c # rest" by (cases cs) auto
    with False Some show ?thesis
      by (simp add: random_report_def and_then_def py_min_def py_max_def py_div_def)
  qed
qed

text \<open>
  The elapsed time is the one denominator of the throughput statistics that has no
  guard: an elapsed time of zero raises at the first division, whatever the counts.
\<close>

lemma throughput_report_elapsed_zero:
  "throughput_report blocks_encrypted total_cycles 0 = Inl ZeroDivisionError"
  by (simp add: throughput_report_def and_then_def py_div_def)

lemma throughput_report_no_blocks:
  assumes "elapsed \<noteq> 0"
  shows "throughput_report 0 total_cycles elapsed =
     Inr \<lparr>blocks = 0, elapsed_sec = elapsed, blocks_per_sec = 0, bytes_per_sec = 0, kbps = 0,
          avg_cycles = 0\<rparr>"
  using assms by (simp add: throughput_report_def and_then_def py_div_def)

lemma throughput_loop_closed:
  assumes "ser bench = None \<or> (\<exists>s. ser bench = Some s \<and> \<not> is_open s)"
  shows "throughput_loop start_time duration_sec key plaintexts i clock bench acc =
     (case dropWhile (\<lambda>now. now - start_time < duration_sec) clock of
        [] \<Rightarrow> None
      | now # rest \<Rightarrow> Some (Inr acc, rest, bench))"
proof (induction clock arbitrary: i)
  case Nil
  show ?case by simp
next
  case (Cons now clock)
  obtain b t where acc: "acc = (b, t)" by (cases acc)
  show ?case using Cons.IH by (simp add: acc encrypt_block_closed [OF assms])
qed

text \<open>
  C10, as amended. The guarded denominators are never zero when the division is made.
  \<^verbatim>\<open>run_random_tests\<close> with \<open>num_tests = 0\<close> makes no round trip and reports
  \<open>passed = failed = 0\<close> and \<open>pass_rate = 0\<close>, and its statistics never raise
  \<^verbatim>\<open>ZeroDivisionError\<close>. The statistics of \<^verbatim>\<open>run_throughput_test\<close>, for an elapsed
  time that is not zero, are built without an exception, with \<open>avg_cycles = 0\<close> when
  no block succeeded: for every run whose loop ends with no successful block, and in
  particular for every run on a missing or closed connection once the clock has
  passed the duration and is read once more.
\<close>

theorem guarded_denominators:
  "run_random_tests aes rnd bench 0 =
     (Inr \<lparr>passed = 0, failed = 0, total = 0, pass_rate = 0, min_cycles = None,
           max_cycles = None, random_stats.avg_cycles = None\<rparr>, bench)
   \<and> random_report n_passed n_failed num_tests cycle_counts \<noteq> Inl ZeroDivisionError
   \<and> (elapsed \<noteq> 0 \<longrightarrow>
        (\<exists>st. throughput_report blocks_encrypted total_cycles elapsed = Inr st
             \<and> (blocks_encrypted \<le> 0 \<longrightarrow> avg_cycles st = 0)))
   \<and> (\<forall>start_time clock now rest bench'.
         throughput_loop start_time duration_sec key plaintexts 0 clock bench (0, 0)
            = Some (Inr (0, total_cycles), now # rest, bench')
         \<and> now - start_time \<noteq> 0
       \<longrightarrow> run_throughput_test (start_time # clock) key plaintexts bench duration_sec =
             Some (Inr \<lparr>blocks = 0, elapsed_sec = now - start_time, blocks_per_sec = 0,
                        bytes_per_sec = 0, kbps = 0, avg_cycles = 0\<rparr>, bench'))
   \<and> (\<forall>start_time clock last_check now rest.
         (ser bench = None \<or> (\<exists>s. ser bench = Some s \<and> \<not> is_open s))
         \<and> dropWhile (\<lambda>t. t - start_time < duration_sec) clock = last_check # now # rest
         \<and> now - start_time \<noteq> 0
       \<longrightarrow> run_throughput_test (start_time # clock) key plaintexts bench duration_sec =
             Some (Inr \<lparr>blocks = 0, elapsed_sec = now - start_time, blocks_per_sec = 0,
                        bytes_per_sec = 0, kbps = 0, avg_cycles = 0\<rparr>, bench))"
proof (intro conjI impI allI)
  show "run_random_tests aes rnd bench 0 =
     (Inr \<lparr>passed = 0, failed = 0, total = 0, pass_rate = 0, min_cycles = None,
           max_cycles = None, random_stats.avg_cycles = None\<rparr>, bench)"
    by (simp add: run_random_tests_def random_report_def)
next
  show "random_report n_passed n_failed num_tests cycle_counts \<noteq> Inl ZeroDivisionError"
    by (rule random_report_no_zero_division)
next
  assume "elapsed \<noteq> 0"
  then show "\<exists>st. throughput_report blocks_encrypted total_cycles elapsed = Inr st
             \<and> (blocks_encrypted \<le> 0 \<longrightarrow> avg_cycles st = 0)"
    by (simp add: throughput_report_def and_then_def py_div_def)
next
  fix start_time clock now rest bench'
  assume "throughput_loop start_time duration_sec key plaintexts 0 clock bench (0, 0)
            = Some (Inr (0, total_cycles), now # rest, bench')
         \<and> now - start_time \<noteq> 0"
  then show "run_throughput_test (start_time # clock) key plaintexts bench duration_sec =
             Some (Inr \<lparr>blocks = 0, elapsed_sec = now - start_time, blocks_per_sec = 0,
                        bytes_per_sec = 0, kbps = 0, avg_cycles = 0\<rparr>, bench')"
    by (simp add: run_throughput_test_def throughput_report_no_blocks)
next
  fix start_time clock last_check now rest
  assume h: "(ser bench = None \<or> (\<exists>s. ser bench = Some s \<and> \<not> is_open s))
         \<and> dropWhile (\<lambda>t. t - start_time < duration_sec) clock = last_check # now # rest
         \<and> now - start_time \<noteq> 0"
  then have "throughput_loop start_time duration_sec key plaintexts 0 clock bench (0, 0)
      = Some (Inr (0, 0), now # rest, bench)"
    by (simp add: throughput_loop_closed)
  with h show "run_throughput_test (start_time # clock) key plaintexts bench duration_sec =
             Some (Inr \<lparr>blocks = 0, elapsed_sec = now - start_time, blocks_per_sec = 0,
                        bytes_per_sec = 0, kbps = 0, avg_cycles = 0\<rparr>, bench)"
    by (simp add: run_throughput_test_def throughput_report_no_blocks)
qed

theorem guarded_denominators_witness:
  "run_throughput_test [0, 1, 6, 7] NIST_KEY fixed_plaintext closed_bench 5 =
     Some (Inr \<lparr>blocks = 0, elapsed_sec = 7, blocks_per_sec = 0, bytes_per_sec = 0, kbps = 0,
                avg_cycles = 0\<rparr>, closed_bench)"
proof -
  have c: "(ser closed_bench = None \<or> (\<exists>s. ser closed_bench = Some s \<and> \<not> is_open s))
      \<and> dropWhile (\<lambda>t. t - 0 < (5::real)) [1, 6, 7] = 6 # 7 # []
      \<and> (7::real) - 0 \<noteq> 0"
    by (simp add: example_defs2)
  from guarded_denominators [where key = NIST_KEY and plaintexts = fixed_plaintext and bench = closed_bench
      and duration_sec = 5] c
  have "run_throughput_test (0 # [1, 6, 7]) NIST_KEY fixed_plaintext closed_bench 5 =
     Some (Inr \<lparr>blocks = 0, elapsed_sec = 7 - 0, blocks_per_sec = 0, bytes_per_sec = 0, kbps = 0,
                avg_cycles = 0\<rparr>, closed_bench)"
    by blast
  then show ?thesis by simp
qed

text \<open>
  C10 as it is stated fails: with a duration of zero and a clock that gives the same
  value three times, the loop makes no round trip, no block has succeeded, the elapsed
  time is zero, and \<^verbatim>\<open>run_throughput_test\<close> raises \<^verbatim>\<open>ZeroDivisionError\<close> at the
  division by the elapsed time: no \<open>avg_cycles\<close> is reported.
\<close>

theorem throughput_zero_elapsed_raises:
  "run_throughput_test [3, 3, 3] NIST_KEY fixed_plaintext closed_bench 0
     = Some (Inl ZeroDivisionError, closed_bench)
   \<and> run_throughput_test [3, 3, 3] NIST_KEY fixed_plaintext (example_bench silent_device) 0
     = Some (Inl ZeroDivisionError, example_bench silent_device)"
  by (simp add: run_throughput_test_def throughput_report_elapsed_zero)

subsection \<open>Block-wise encryption and decryption\<close>

lemma pad_pixels_aligned: "length pixels mod 16 = 0 \<Longrightarrow> pad_pixels pixels = pixels"
  by (simp add: pad_pixels_def)

lemma length_pad_pixels: "length (pad_pixels pixels) mod 16 = 0"
proof (cases "length pixels mod 16 = 0")
  case True
  then show ?thesis by (simp add: pad_pixels_def)
next
  case False
  have "(length pixels + (16 - length pixels mod 16)) mod 16 = 0"
    using False by presburger
  with False show ?thesis by (simp add: pad_pixels_def Let_def)
qed

lemma take_pad_pixels: "take (length pixels) (pad_pixels pixels) = pixels"
  by (simp add: pad_pixels_def Let_def)

lemma block_length:
  assumes "i < length data div 16"
  shows "length (py_slice data (i * 16) ((i + 1) * 16)) = 16"
proof -
  have "(i + 1) * 16 \<le> length data" using assms by simp
  then show ?thesis by (simp add: py_slice_def)
qed

lemma split_blocks_concat:
  assumes "\<forall>b \<in> set bs. length b = 16"
  shows "split_blocks (concat bs) = bs"
proof -
  have len: "length (concat bs) = 16 * length bs"
    using assms by (induction bs) simp_all
  have nth: "\<And>i. i < length bs \<Longrightarrow> take 16 (drop (i * 16) (concat bs)) = bs ! i"
    using assms
  proof (induction bs)
    case Nil
    then show ?case by simp
  next
    case (Cons b bs)
    show ?case
    proof (cases i)
      case 0
      with Cons.prems show ?thesis by simp
    next
      case (Suc j)
      with Cons.prems have "j < length bs" by simp
      from Cons.IH [OF this] Cons.prems(2) have "take 16 (drop (j * 16) (concat bs)) = bs ! j"
        by simp
      with Suc Cons.prems(2) show ?thesis by simp
    qed
  qed
  show ?thesis
    by (rule nth_equalityI) (simp_all add: split_blocks_def len py_slice_def nth)
qed

lemma concat_split_blocks:
  assumes "length data mod 16 = 0"
  shows "concat (split_blocks data) = data"
  using assms
proof (induction "length data div 16" arbitrary: data)
  case 0
  then have "length data = 0" by presburger
  then show ?case by (simp add: split_blocks_def)
next
  case (Suc n)
  let ?m = "length data div 16"
  have m: "?m = Suc n" using Suc.hyps(2) by simp
  have l: "length data = 16 * ?m" using Suc.prems by presburger
  have pre: "length (take (16 * n) data) div 16 = n" "length (take (16 * n) data) mod 16 = 0"
    using l m by simp_all
  have ih: "concat (split_blocks (take (16 * n) data)) = take (16 * n) data"
    using Suc.hyps(1) [of "take (16 * n) data"] pre by simp
  have sb: "split_blocks data
      = split_blocks (take (16 * n) data) @ [py_slice data (n * 16) ((n + 1) * 16)]"
  proof -
    have "\<And>i. i < n \<Longrightarrow> py_slice (take (16 * n) data) (i * 16) ((i + 1) * 16)
                 = py_slice data (i * 16) ((i + 1) * 16)"
    proof -
      fix i assume "i < n"
      then have "(i + 1) * 16 \<le> 16 * n" by simp
      then show "py_slice (take (16 * n) data) (i * 16) ((i + 1) * 16)
                 = py_slice data (i * 16) ((i + 1) * 16)"
        by (simp add: py_slice_def take_drop min_def)
    qed
    then have "map (\<lambda>i. py_slice (take (16 * n) data) (i * 16) ((i + 1) * 16)) [0..<n]
             = map (\<lambda>i. py_slice data (i * 16) ((i + 1) * 16)) [0..<n]"
      by (intro map_cong) simp_all
    moreover have "split_blocks (take (16 * n) data)
        = map (\<lambda>i. py_slice (take (16 * n) data) (i * 16) ((i + 1) * 16)) [0..<n]"
      unfolding split_blocks_def pre(1) ..
    moreover have "split_blocks data = map (\<lambda>i. py_slice data (i * 16) ((i + 1) * 16)) [0..<Suc n]"
      unfolding split_blocks_def m ..
    ultimately show ?thesis by simp
  qed
  have "py_slice data (n * 16) ((n + 1) * 16) = drop (16 * n) data"
    using l m by (simp add: py_slice_def mult.commute)
  with sb ih show ?case by simp
qed

lemma set_split_blocks: "b \<in> set (split_blocks data) \<Longrightarrow> length b = 16"
  using block_length by (auto simp: split_blocks_def)

lemma length_concat_blocks:
  "\<forall>c \<in> set cs. length c = 16 \<Longrightarrow> length (concat cs) = 16 * length cs"
  by (induction cs) simp_all

lemma ecb_round_trip:
  assumes "length key = 16" "length data mod 16 = 0"
    and "\<forall>b. length b = 16 \<longrightarrow>
           length (encrypt_blk aes key b) = 16 \<and> decrypt_blk aes key (encrypt_blk aes key b) = b"
  shows "ecb_encrypt aes key data = Inr (concat (map (encrypt_blk aes key) (split_blocks data)))"
    and "ecb_decrypt aes key (concat (map (encrypt_blk aes key) (split_blocks data))) = Inr data"
proof -
  let ?ct = "concat (map (encrypt_blk aes key) (split_blocks data))"
  show "ecb_encrypt aes key data = Inr ?ct"
    using assms(1,2) by (simp add: ecb_encrypt_def ecb_def)
  have all16: "\<forall>c \<in> set (map (encrypt_blk aes key) (split_blocks data)). length c = 16"
    using assms(3) set_split_blocks by auto
  from length_concat_blocks [OF this] have len: "length ?ct = 16 * length (split_blocks data)"
    by simp
  have sp: "split_blocks ?ct = map (encrypt_blk aes key) (split_blocks data)"
    by (rule split_blocks_concat [OF all16])
  have "map (decrypt_blk aes key) (map (encrypt_blk aes key) (split_blocks data)) = split_blocks data"
    using assms(3) set_split_blocks by (simp add: map_idI)
  then have "concat (map (decrypt_blk aes key) (split_blocks ?ct)) = data"
    using sp concat_split_blocks [OF assms(2)] by simp
  then show "ecb_decrypt aes key ?ct = Inr data"
    using assms(1) len by (simp add: ecb_decrypt_def ecb_def)
qed

lemma hw_encrypt_loop_reference:
  assumes key: "length key = 16"
    and blocks: "\<forall>i \<in> set idx. i < length pixels div 16"
    and conn: "ser bench = Some s" "is_open s" "\<not> rx_fault s"
    and enc: "\<forall>b. length b = 16 \<longrightarrow> length (encrypt_blk aes key b) = 16"
    and dev: "\<forall>fs b. length b = 16 \<longrightarrow>
        (\<exists>cyc. length cyc = 4
           \<and> attached s (fs @ [key @ b @ [0xFF, 0xFF]]) = Some (encrypt_blk aes key b @ cyc))"
  shows "\<exists>cycles. fst (hw_encrypt_loop key pixels idx (hw_ciphertext, hw_cycles_list, errors) bench)
     = Inr (hw_ciphertext
              @ concat (map (\<lambda>i. encrypt_blk aes key (py_slice pixels (i * 16) ((i + 1) * 16))) idx),
            cycles, errors)"
  using blocks conn dev
proof (induction idx arbitrary: hw_ciphertext hw_cycles_list bench s)
  case Nil
  show ?case by simp
next
  case (Cons i rest)
  let ?b = "py_slice pixels (i * 16) ((i + 1) * 16)"
  have lb: "length ?b = 16" using Cons.prems(1) by (intro block_length) simp
  from Cons.prems(5) lb obtain cyc where cyc: "length cyc = 4"
    "attached s (frames (ops s) @ [key @ ?b @ [0xFF, 0xFF]]) = Some (encrypt_blk aes key ?b @ cyc)"
    by blast
  have l20: "\<not> length (encrypt_blk aes key ?b @ cyc) < 20" using enc lb cyc(1) by simp
  note e = encrypt_block_reply [OF Cons.prems(2-4) key lb cyc(2)]
  let ?s' = "s\<lparr>in_buffer := drop 20 (encrypt_blk aes key ?b @ cyc),
         ops := ops s @ [ResetInputBuffer, Write (key @ ?b @ [0xFF, 0xFF]), Flush, Read 20]\<rparr>"
  let ?n = "uint ((encrypt_blk aes key ?b @ cyc) ! 16) + 256 * uint ((encrypt_blk aes key ?b @ cyc) ! 17)
      + 65536 * uint ((encrypt_blk aes key ?b @ cyc) ! 18)
      + 16777216 * uint ((encrypt_blk aes key ?b @ cyc) ! 19)"
  have t16: "take 16 (encrypt_blk aes key ?b @ cyc) = encrypt_blk aes key ?b"
    using enc lb by simp
  have step: "encrypt_block bench key ?b
      = (Inr (Some (encrypt_blk aes key ?b), Some ?n), bench\<lparr>ser := Some ?s'\<rparr>)"
    unfolding e using l20 t16 by simp
  have unroll: "hw_encrypt_loop key pixels (i # rest) (hw_ciphertext, hw_cycles_list, errors) bench
      = hw_encrypt_loop key pixels rest
            (hw_ciphertext @ encrypt_blk aes key ?b, hw_cycles_list @ [Some ?n], errors)
            (bench\<lparr>ser := Some ?s'\<rparr>)"
    by (simp only: hw_encrypt_loop.simps step Let_def prod.case sum.case option.case)
  have ih: "\<exists>cycles. fst (hw_encrypt_loop key pixels rest
            (hw_ciphertext @ encrypt_blk aes key ?b, hw_cycles_list @ [Some ?n], errors)
            (bench\<lparr>ser := Some ?s'\<rparr>))
     = Inr ((hw_ciphertext @ encrypt_blk aes key ?b)
              @ concat (map (\<lambda>i. encrypt_blk aes key (py_slice pixels (i * 16) ((i + 1) * 16))) rest),
            cycles, errors)"
    by (rule Cons.IH [of _ ?s']) (use Cons.prems in simp_all)
  show ?case
    unfolding unroll using ih by (simp only: list.map concat.simps append_assoc)
qed

text \<open>
  C6. A buffer whose length is a multiple of 16 is left as it is by the padding: no
  byte is added. And for every buffer: when the key has 16 bytes, the software
  decryption inverts the software encryption on the blocks of this key, and the
  device answers every frame with the reference ciphertext of its block and four
  bytes of cycle count, then every block succeeds (the error count is 0), the
  hardware ciphertext is the software ciphertext of the padded buffer, and decrypting
  it with the same key and cutting the result to the original length gives the
  original buffer back, so that the check of lines 523-526 holds.
\<close>

theorem bulk_decrypt_reconstructs:
  assumes key: "length key = 16"
    and aes: "\<forall>b. length b = 16 \<longrightarrow>
           length (encrypt_blk aes key b) = 16 \<and> decrypt_blk aes key (encrypt_blk aes key b) = b"
    and conn: "ser bench = Some s" "is_open s" "\<not> rx_fault s"
    and dev: "\<forall>fs b. length b = 16 \<longrightarrow>
        (\<exists>cyc. length cyc = 4
           \<and> attached s (fs @ [key @ b @ [0xFF, 0xFF]]) = Some (encrypt_blk aes key b @ cyc))"
  shows "(length pixels mod 16 = 0 \<longrightarrow> pad_pixels pixels = pixels)
     \<and> (\<exists>hw_ciphertext hw_cycles_list.
           fst (hw_encrypt bench key (pad_pixels pixels)) = Inr (hw_ciphertext, hw_cycles_list, 0)
         \<and> ecb_encrypt aes key (pad_pixels pixels) = Inr hw_ciphertext
         \<and> and_then (ecb_decrypt aes key hw_ciphertext)
              (\<lambda>decrypted. Inr (py_slice decrypted 0 (length pixels))) = Inr pixels
         \<and> decrypt_check aes key hw_ciphertext (pad_pixels pixels) (length pixels) = Inr True)"
proof (intro conjI impI)
  assume "length pixels mod 16 = 0"
  then show "pad_pixels pixels = pixels" by (rule pad_pixels_aligned)
next
  let ?p = "pad_pixels pixels"
  let ?ct = "concat (map (encrypt_blk aes key) (split_blocks ?p))"
  have enc: "\<forall>b. length b = 16 \<longrightarrow> length (encrypt_blk aes key b) = 16" using aes by simp
  have idx: "\<forall>i \<in> set [0..<length ?p div 16]. i < length ?p div 16" by simp
  from hw_encrypt_loop_reference [OF key idx conn enc dev, of "[]" "[]" 0]
  obtain cycles where loop: "fst (hw_encrypt bench key ?p) = Inr (?ct, cycles, 0)"
    by (auto simp: hw_encrypt_def split_blocks_def comp_def)
  note rt = ecb_round_trip [OF key length_pad_pixels aes]
  have dec: "and_then (ecb_decrypt aes key ?ct) (\<lambda>decrypted. Inr (py_slice decrypted 0 (length pixels)))
             = Inr pixels"
    by (simp add: rt(2) and_then_def py_slice_def take_pad_pixels)
  have chk: "decrypt_check aes key ?ct ?p (length pixels) = Inr True"
    by (simp add: decrypt_check_def rt(2) and_then_def)
  from loop rt(1) dec chk
  show "\<exists>hw_ciphertext hw_cycles_list.
           fst (hw_encrypt bench key ?p) = Inr (hw_ciphertext, hw_cycles_list, 0)
         \<and> ecb_encrypt aes key ?p = Inr hw_ciphertext
         \<and> and_then (ecb_decrypt aes key hw_ciphertext)
              (\<lambda>decrypted. Inr (py_slice decrypted 0 (length pixels))) = Inr pixels
         \<and> decrypt_check aes key hw_ciphertext ?p (length pixels) = Inr True"
    by blast
qed

lemma toy_aes_inverse:
  assumes "length b = length k"
  shows "length (encrypt_blk toy_aes k b) = length b"
    and "decrypt_blk toy_aes k (encrypt_blk toy_aes k b) = b"
proof -
  show "length (encrypt_blk toy_aes k b) = length b" using assms by (simp add: toy_aes_def)
  show "decrypt_blk toy_aes k (encrypt_blk toy_aes k b) = b"
    using assms by (induction b k rule: list_induct2) (simp_all add: toy_aes_def)
qed

theorem bulk_decrypt_reconstructs_witness:
  "map_sum id fst (fst (hw_encrypt (example_bench toy_accelerator) NIST_KEY (pad_pixels twenty_pixels)))
     = ecb_encrypt toy_aes NIST_KEY (pad_pixels twenty_pixels)
   \<and> and_then (ecb_encrypt toy_aes NIST_KEY (pad_pixels twenty_pixels))
        (\<lambda>hw. decrypt_check toy_aes NIST_KEY hw (pad_pixels twenty_pixels) (length twenty_pixels))
     = Inr True
   \<and> and_then (ecb_encrypt toy_aes NIST_KEY (pad_pixels twenty_pixels))
        (\<lambda>hw. and_then (ecb_decrypt toy_aes NIST_KEY hw)
           (\<lambda>decrypted. Inr (py_slice decrypted 0 (length twenty_pixels))))
     = Inr twenty_pixels"
proof -
  have key: "length NIST_KEY = 16" by (simp add: NIST_KEY_def)
  have aes: "\<forall>b. length b = 16 \<longrightarrow>
      length (encrypt_blk toy_aes NIST_KEY b) = 16
      \<and> decrypt_blk toy_aes NIST_KEY (encrypt_blk toy_aes NIST_KEY b) = b"
    using toy_aes_inverse [of _ NIST_KEY] key by simp
  have conn: "ser (example_bench toy_accelerator) = Some (example_serial toy_accelerator)"
    "is_open (example_serial toy_accelerator)" "\<not> rx_fault (example_serial toy_accelerator)"
    by (simp_all add: example_bench_def example_serial_def)
  have dev: "\<forall>fs b. length b = 16 \<longrightarrow>
        (\<exists>cyc. length cyc = 4
           \<and> attached (example_serial toy_accelerator) (fs @ [NIST_KEY @ b @ [0xFF, 0xFF]])
               = Some (encrypt_blk toy_aes NIST_KEY b @ cyc))"
  proof (intro allI impI)
    fix fs :: "bytes list" and b :: bytes
    assume b: "length b = 16"
    have "toy_accelerator (fs @ [NIST_KEY @ b @ [0xFF, 0xFF]])
        = Some (encrypt_blk toy_aes NIST_KEY b @ [0x0b, 0, 0, 0])"
      using b key by (cases fs) (simp_all add: toy_accelerator_def toy_aes_def)
    then show "\<exists>cyc. length cyc = 4
           \<and> attached (example_serial toy_accelerator) (fs @ [NIST_KEY @ b @ [0xFF, 0xFF]])
               = Some (encrypt_blk toy_aes NIST_KEY b @ cyc)"
      by (intro exI [of _ "[0x0b, 0, 0, 0]"]) (simp add: example_serial_def)
  qed
  from bulk_decrypt_reconstructs [OF key aes conn dev, of twenty_pixels] show ?thesis
    by (auto simp: and_then_def)
qed

end
